theory Spec2Isabelle
  imports
    Complex_Main
    "HOL-Library.Multiset"
    "HOL-Library.Log_Nat"
    "HOL-Library.Char_ord"
    "HOL-Library.List_Lexorder"
    "HOL-Library.Product_Lexorder"
begin

section \<open>Conventions of the embedding\<close>

text \<open>
  The development embeds the entity extractor, the item normaliser, the thread detector and
  the topic clusterer of \<^verbatim>\<open>ai_news_scraper.py\<close>.

  \<^item> A Python exception that leaves a function is the left summand of the result type.
    The only exception the embedded functions can raise is \<^verbatim>\<open>TypeError\<close>.
  \<^item> A \<^verbatim>\<open>defaultdict(list)\<close> is an association list in insertion order, since the code
    iterates over it.
  \<^item> A Python \<^verbatim>\<open>set\<close> of strings is a list without repetition; the order of the list is the
    order in which the set enumerates.
  \<^item> \<^verbatim>\<open>dict.get(key, default)\<close> on a record is an optional field read with a default.
\<close>

datatype error = TypeError

fun append_to :: "'k \<Rightarrow> 'v \<Rightarrow> ('k \<times> 'v list) list \<Rightarrow> ('k \<times> 'v list) list" where
  "append_to k v [] = [(k, [v])]"
| "append_to k v ((k', vs) # m) =
     (if k = k' then (k', vs @ [v]) # m else (k', vs) # append_to k v m)"

definition get_or :: "'a \<Rightarrow> 'a option \<Rightarrow> 'a" where
  "get_or d v = (case v of None \<Rightarrow> d | Some x \<Rightarrow> x)"

section \<open>Thread detection\<close>

subsection \<open>Posts and timestamps\<close>

text \<open>
  \<^verbatim>\<open>detect_threads\<close> reads the key \<^verbatim>\<open>created_at\<close> of a post only through
  \<^verbatim>\<open>datetime.fromisoformat(created_at.replace('Z', '+00:00'))\<close> inside a \<^verbatim>\<open>try\<close> whose
  \<^verbatim>\<open>except\<close> sets \<^verbatim>\<open>dt = None\<close>. The field \<open>created_at\<close> of the model holds the outcome of
  that statement:
  \<^item> \<open>Unparseable\<close>: the key is missing or its value is not in ISO format (\<^verbatim>\<open>dt = None\<close>);
  \<^item> \<open>Aware t\<close>: a datetime with a UTC offset, such as \<^verbatim>\<open>2024-01-15T10:30:00Z\<close>; \<open>t\<close> is its
    instant in microseconds after 0001-01-01T00:00:00 UTC (negative when before);
  \<^item> \<open>Naive t\<close>: a datetime without offset, such as \<^verbatim>\<open>2024-01-15T10:30:00\<close> or the date-only
    \<^verbatim>\<open>2024-01-15\<close>; \<open>t\<close> is its wall-clock reading in microseconds after 0001-01-01T00:00:00.

  Python orders and subtracts two aware datetimes by their instants and two naive ones by
  their readings, and raises \<^verbatim>\<open>TypeError\<close> when it has to order or subtract a naive and an
  aware one.
\<close>

datatype timestamp = Unparseable | Naive int | Aware int

record post =
  username :: "string option"
  body :: "string option"
  created_at :: timestamp
  url :: "string option"

text \<open>The item \<^verbatim>\<open>{'is_thread': True, 'posts': thread_posts, 'username': username}\<close> is
  \<open>Thread username thread_posts\<close>; a post emitted as it is, is \<open>Single\<close>.\<close>

datatype x_item = Single post | Thread string "post list"

fun item_posts :: "x_item \<Rightarrow> post list" where
  "item_posts (Single p) = [p]"
| "item_posts (Thread u ps) = ps"

subsection \<open>Sorting by time\<close>

text \<open>\<^verbatim>\<open>datetime.min.replace(tzinfo=timezone.utc)\<close>: the instant 0 of the aware time line.\<close>

definition datetime_min_utc :: timestamp where
  "datetime_min_utc = Aware 0"

text \<open>The sort key \<^verbatim>\<open>x if x else datetime.min.replace(tzinfo=timezone.utc)\<close>.\<close>

definition time_key :: "timestamp \<Rightarrow> timestamp" where
  "time_key dt = (if dt = Unparseable then datetime_min_utc else dt)"

fun is_naive :: "timestamp \<Rightarrow> bool" where
  "is_naive (Naive t) = True"
| "is_naive _ = False"

fun reading :: "timestamp \<Rightarrow> int" where
  "reading (Naive t) = t"
| "reading (Aware t) = t"
| "reading Unparseable = 0"

text \<open>
  A sort of two or more keys compares keys until their order is settled, so it compares a
  naive with an aware key as soon as both kinds are present, and raises. A list of at most
  one key is sorted without any comparison.
\<close>

definition comparable :: "timestamp list \<Rightarrow> bool" where
  "comparable ks = (length ks \<le> 1 \<or> list_all is_naive ks \<or> list_all (\<lambda>k. \<not> is_naive k) ks)"

text \<open>\<^verbatim>\<open>xs.sort(key=lambda x: dt(x) if dt(x) else datetime.min.replace(...))\<close>; Python's sort is
  stable, and so is \<^const>\<open>sort_key\<close>.\<close>

definition sort_ascending :: "('a \<Rightarrow> timestamp) \<Rightarrow> 'a list \<Rightarrow> error + 'a list" where
  "sort_ascending dt xs =
     (if comparable (map (\<lambda>x. time_key (dt x)) xs)
      then Inr (sort_key (\<lambda>x. reading (time_key (dt x))) xs)
      else Inl TypeError)"

text \<open>The same with \<^verbatim>\<open>reverse=True\<close>, which keeps the elements of equal key in their
  original order.\<close>

definition sort_descending :: "('a \<Rightarrow> timestamp) \<Rightarrow> 'a list \<Rightarrow> error + 'a list" where
  "sort_descending dt xs =
     (if comparable (map (\<lambda>x. time_key (dt x)) xs)
      then Inr (sort_key (\<lambda>x. - reading (time_key (dt x))) xs)
      else Inl TypeError)"

subsection \<open>Grouping by author\<close>

definition group_by_author :: "post list \<Rightarrow> (string \<times> post list) list" where
  "group_by_author posts = fold (\<lambda>p m. append_to (get_or [] (username p)) p m) posts []"

fun sort_each :: "(string \<times> post list) list \<Rightarrow> error + (string \<times> post list) list" where
  "sort_each [] = Inr []"
| "sort_each ((u, ps) # m) =
     (case sort_ascending created_at ps of
        Inl e \<Rightarrow> Inl e
      | Inr ps' \<Rightarrow> (case sort_each m of Inl e \<Rightarrow> Inl e | Inr m' \<Rightarrow> Inr ((u, ps') # m')))"

subsection \<open>Floating-point minutes\<close>

text \<open>
  The difference of two datetimes is a \<^verbatim>\<open>timedelta\<close>, an exact number \<open>d\<close> of microseconds.
  \<^verbatim>\<open>total_seconds()\<close> divides it by \<open>10^6\<close> and \<^verbatim>\<open>/ 60\<close> divides the result by sixty; both
  quotients are Python floats, that is the exact quotient rounded to the nearest number with a
  significand of 53 bits, a tie going to the even significand. The differences of two
  datetimes are below \<open>3.2 * 10^17\<close> microseconds, far from the overflow and the underflow of
  the format, which the model leaves out.

  \<open>exponent x\<close> is the exponent \<open>e\<close> with \<open>2^e \<le> x < 2^(e + 1)\<close> of a positive number, and
  \<open>round_double x\<close> the float nearest to \<open>x\<close>.
\<close>

definition pow2 :: "int \<Rightarrow> rat" where
  "pow2 e = (if 0 \<le> e then 2 ^ nat e else 1 / 2 ^ nat (- e))"

definition exponent :: "rat \<Rightarrow> int" where
  "exponent x = (if 1 \<le> x then bitlen \<lfloor>x\<rfloor> - 1 else - bitlen (\<lceil>1 / x\<rceil> - 1))"

definition round_half_even :: "rat \<Rightarrow> int" where
  "round_half_even y =
     (let f = \<lfloor>y\<rfloor>; r = y - of_int f
      in if r < 1 / 2 then f else if 1 / 2 < r then f + 1 else if even f then f else f + 1)"

definition round_double :: "rat \<Rightarrow> rat" where
  "round_double x =
     (if x = 0 then 0
      else let ulp = pow2 (exponent \<bar>x\<bar> - 52)
           in sgn x * of_int (round_half_even (\<bar>x\<bar> / ulp)) * ulp)"

text \<open>\<^verbatim>\<open>timedelta.total_seconds()\<close> of a difference of \<open>d\<close> microseconds.\<close>

definition total_seconds :: "int \<Rightarrow> rat" where
  "total_seconds d = round_double (of_int d / 1000000)"

text \<open>\<^verbatim>\<open>time_diff = abs((dt - prev_dt).total_seconds() / 60)\<close>\<close>

definition time_diff :: "int \<Rightarrow> rat" where
  "time_diff d = \<bar>round_double (total_seconds d / 60)\<bar>"

subsection \<open>The detector\<close>

text \<open>
  The test \<^verbatim>\<open>if dt and prev_dt: time_diff = abs((dt - prev_dt).total_seconds() / 60);
  if time_diff <= time_threshold_minutes\<close>. The threshold is a Python number, the integer 10 by
  default: a rational number in the model. Python compares a float with an integer, and two
  floats, exactly.
\<close>

fun within_threshold :: "rat \<Rightarrow> timestamp \<Rightarrow> timestamp \<Rightarrow> error + bool" where
  "within_threshold m (Aware t) (Aware prev) = Inr (time_diff (t - prev) \<le> m)"
| "within_threshold m (Naive t) (Naive prev) = Inr (time_diff (t - prev) \<le> m)"
| "within_threshold m (Aware t) (Naive prev) = Inl TypeError"
| "within_threshold m (Naive t) (Aware prev) = Inl TypeError"
| "within_threshold m Unparseable prev_dt = Inr False"
| "within_threshold m dt Unparseable = Inr False"

text \<open>Closing the run \<^verbatim>\<open>current_thread\<close>, which is never empty: it is \<open>first # others\<close>.\<close>

definition finalize :: "string \<Rightarrow> post \<Rightarrow> post list \<Rightarrow> timestamp \<times> x_item" where
  "finalize u first others =
     (if length (first # others) \<ge> 2 then (created_at first, Thread u (first # others))
      else (created_at first, Single first))"

text \<open>The loop \<^verbatim>\<open>for i in range(1, len(author_posts))\<close> with the statements after it.\<close>

fun walk :: "rat \<Rightarrow> string \<Rightarrow> post \<Rightarrow> post list \<Rightarrow> post list \<Rightarrow> error + (timestamp \<times> x_item) list" where
  "walk m u first others [] = Inr [finalize u first others]"
| "walk m u first others (p # ps) =
     (case within_threshold m (created_at p) (created_at (last (first # others))) of
        Inl e \<Rightarrow> Inl e
      | Inr True \<Rightarrow> walk m u first (others @ [p]) ps
      | Inr False \<Rightarrow>
          (case walk m u p [] ps of
             Inl e \<Rightarrow> Inl e
           | Inr out \<Rightarrow> Inr (finalize u first others # out)))"

fun author_items :: "rat \<Rightarrow> string \<Rightarrow> post list \<Rightarrow> error + (timestamp \<times> x_item) list" where
  "author_items m u [] = Inr []"
| "author_items m u [p] = Inr [(created_at p, Single p)]"
| "author_items m u (p # ps) = walk m u p [] ps"

fun collect :: "rat \<Rightarrow> (string \<times> post list) list \<Rightarrow> error + (timestamp \<times> x_item) list" where
  "collect m [] = Inr []"
| "collect m ((u, ps) # rest) =
     (case author_items m u ps of
        Inl e \<Rightarrow> Inl e
      | Inr xs \<Rightarrow> (case collect m rest of Inl e \<Rightarrow> Inl e | Inr ys \<Rightarrow> Inr (xs @ ys)))"

definition detect_threads :: "post list \<Rightarrow> rat \<Rightarrow> error + x_item list" where
  "detect_threads posts time_threshold_minutes =
     (if posts = [] then Inr []
      else case sort_each (group_by_author posts) of
        Inl e \<Rightarrow> Inl e
      | Inr by_author \<Rightarrow>
          (case collect time_threshold_minutes by_author of
             Inl e \<Rightarrow> Inl e
           | Inr result_items \<Rightarrow>
               (case sort_descending fst result_items of
                  Inl e \<Rightarrow> Inl e
                | Inr sorted_items \<Rightarrow> Inr (map snd sorted_items))))"

subsection \<open>Notions used by the statements about the detector\<close>

text \<open>The starting timestamp of an emitted item: the tag it carries in \<^verbatim>\<open>result_items\<close>.\<close>

fun item_start :: "x_item \<Rightarrow> timestamp" where
  "item_start (Single p) = created_at p"
| "item_start (Thread u []) = Unparseable"
| "item_start (Thread u (p # ps)) = created_at p"

text \<open>The number by which the final sort orders an emitted item.\<close>

definition start_reading :: "x_item \<Rightarrow> int" where
  "start_reading it = reading (time_key (item_start it))"

text \<open>A post joins the run that ends with \<open>prev\<close>.\<close>

definition joins :: "rat \<Rightarrow> post \<Rightarrow> post \<Rightarrow> bool" where
  "joins m prev p = (within_threshold m (created_at p) (created_at prev) = Inr True)"

text \<open>All timestamps are naive, or none is: no two of them make a comparison raise.\<close>

definition uniform_kind :: "timestamp list \<Rightarrow> bool" where
  "uniform_kind ks = (list_all is_naive ks \<or> list_all (\<lambda>k. \<not> is_naive k) ks)"

definition author :: "post \<Rightarrow> string" where
  "author p = get_or [] (username p)"

text \<open>An emitted item is a post as it is, or a thread of the author with two posts or more.\<close>

fun well_formed_item :: "string \<Rightarrow> x_item \<Rightarrow> bool" where
  "well_formed_item u (Single p) = True"
| "well_formed_item u (Thread u' ps) = (u' = u \<and> length ps \<ge> 2)"

text \<open>
  The items \<open>r\<close> are the maximal runs of the sequence \<open>ps\<close>: they cut \<open>ps\<close> into pieces, two
  neighbours inside a piece are joined, and the last post of a piece and the first post of
  the next piece are not.
\<close>

definition maximal_runs :: "rat \<Rightarrow> string \<Rightarrow> post list \<Rightarrow> x_item list \<Rightarrow> bool" where
  "maximal_runs m u ps r =
     (concat (map item_posts r) = ps \<and>
      (\<forall>it\<in>set r. item_posts it \<noteq> [] \<and> well_formed_item u it \<and>
                   successively (joins m) (item_posts it)) \<and>
      successively (\<lambda>a b. \<not> joins m (last (item_posts a)) (hd (item_posts b))) r)"

subsection \<open>Example posts\<close>

definition post_of :: "string \<Rightarrow> timestamp \<Rightarrow> post" where
  "post_of u t = \<lparr>username = Some u, body = None, created_at = t, url = None\<rparr>"

text \<open>Microseconds: five minutes, ten minutes, ten minutes and a hundredth, ten minutes and a
  half.\<close>

definition five_minutes :: int where
  "five_minutes = 300000000"


definition ten_minutes :: int where
  "ten_minutes = 600000000"

definition ten_minutes_and_a_hundredth :: int where
  "ten_minutes_and_a_hundredth = 600600000"

definition ten_minutes_and_a_half :: int where
  "ten_minutes_and_a_half = 630000000"

text \<open>Microseconds after 0001-01-01T00:00:00 of 2024-01-15 at 00:00:00 and at 10:30:00.\<close>

definition midnight_2024_01_15 :: int where
  "midnight_2024_01_15 = 63840873600000000"

definition half_past_ten_2024_01_15 :: int where
  "half_past_ten_2024_01_15 = 63840911400000000"

text \<open>The instant of \<^verbatim>\<open>0001-01-01T00:00:00+05:00\<close>: five hours before the instant 0.\<close>

definition year_one_five_hours_east :: int where
  "year_one_five_hours_east = - 18000000000"

text \<open>A thousand million minutes and a microsecond, in microseconds.\<close>

definition a_thousand_million_minutes_and_a_microsecond :: int where
  "a_thousand_million_minutes_and_a_microsecond = 60000000000000001"

section \<open>Entity extraction\<close>

subsection \<open>Characters and strings\<close>

text \<open>
  A Python string is a list of characters. The texts of the model are ASCII texts: on them
  \<^verbatim>\<open>str.lower\<close> changes the letters \<^verbatim>\<open>A\<close> to \<^verbatim>\<open>Z\<close> only, the class \<^verbatim>\<open>\w\<close> of the module \<^verbatim>\<open>re\<close>
  holds the letters, the digits and the underscore, and the class \<^verbatim>\<open>\s\<close> holds the characters
  9 to 13, 28 to 31 and the space. The classes \<^verbatim>\<open>[A-Z]\<close> and \<^verbatim>\<open>[a-z]\<close> hold ASCII letters in
  every text.
\<close>

definition ascii :: "string \<Rightarrow> bool" where
  "ascii s = list_all (\<lambda>c. \<not> digit7 c) s"

definition ascii_uppercase :: string where
  "ascii_uppercase = ''ABCDEFGHIJKLMNOPQRSTUVWXYZ''"

definition ascii_lowercase :: string where
  "ascii_lowercase = ''abcdefghijklmnopqrstuvwxyz''"

definition digits :: string where
  "digits = ''0123456789''"

definition is_upper :: "char \<Rightarrow> bool" where
  "is_upper c = (c \<in> set ascii_uppercase)"

definition is_lower :: "char \<Rightarrow> bool" where
  "is_lower c = (c \<in> set ascii_lowercase)"

definition is_word :: "char \<Rightarrow> bool" where
  "is_word c = (is_upper c \<or> is_lower c \<or> c \<in> set digits \<or> c = CHR ''_'')"

definition is_space :: "char \<Rightarrow> bool" where
  "is_space c =
     (c \<in> set [CHR 0x09, CHR 0x0A, CHR 0x0B, CHR 0x0C, CHR 0x0D,
                CHR 0x1C, CHR 0x1D, CHR 0x1E, CHR 0x1F, CHR 0x20])"

definition lower_char :: "char \<Rightarrow> char" where
  "lower_char c = (case map_of (zip ascii_uppercase ascii_lowercase) c of None \<Rightarrow> c | Some l \<Rightarrow> l)"

text \<open>\<^verbatim>\<open>s.lower()\<close>\<close>

definition lower :: "string \<Rightarrow> string" where
  "lower s = map lower_char s"

text \<open>\<^verbatim>\<open>s.startswith(p)\<close>, and \<^verbatim>\<open>p in s\<close> for strings.\<close>

fun starts_with :: "string \<Rightarrow> string \<Rightarrow> bool" where
  "starts_with s [] = True"
| "starts_with [] (p # ps) = False"
| "starts_with (c # cs) (p # ps) = (c = p \<and> starts_with cs ps)"

fun contains :: "string \<Rightarrow> string \<Rightarrow> bool" where
  "contains [] p = (p = [])"
| "contains (c # cs) p = (starts_with (c # cs) p \<or> contains cs p)"

subsection \<open>The two regular expressions\<close>

text \<open>
  \<^verbatim>\<open>\b\<close> holds between two neighbours of a text when exactly one of them is a word
  character; beyond either end of the text there is no character.
\<close>

definition word_boundary :: "char option \<Rightarrow> char option \<Rightarrow> bool" where
  "word_boundary prev after =
     ((case prev of None \<Rightarrow> False | Some c \<Rightarrow> is_word c) \<noteq>
      (case after of None \<Rightarrow> False | Some c \<Rightarrow> is_word c))"

definition first_char :: "string \<Rightarrow> char option" where
  "first_char s = (case s of [] \<Rightarrow> None | c # cs \<Rightarrow> Some c)"

text \<open>
  \<^verbatim>\<open>re.search(r'\b' + re.escape(pattern) + r'\b', text)\<close>, where \<open>prev\<close> is the character in
  front of the part of the text still to search: the escaped pattern matches itself, letter
  by letter, and the search tries every position from left to right.
\<close>

definition matches_word_here :: "char option \<Rightarrow> string \<Rightarrow> string \<Rightarrow> bool" where
  "matches_word_here prev s pattern =
     (starts_with s pattern \<and>
      word_boundary prev (first_char s) \<and>
      word_boundary (if pattern = [] then prev else Some (last pattern))
                    (first_char (drop (length pattern) s)))"

fun search_word :: "char option \<Rightarrow> string \<Rightarrow> string \<Rightarrow> bool" where
  "search_word prev [] pattern = matches_word_here prev [] pattern"
| "search_word prev (c # cs) pattern =
     (matches_word_here prev (c # cs) pattern \<or> search_word (Some c) cs pattern)"

text \<open>
  \<^verbatim>\<open>re.findall(r'\b([A-Z][a-z]+(?:\s+[A-Z][a-z]+)*)\b', text)\<close>.

  \<open>cap_word\<close> is \<^verbatim>\<open>[A-Z][a-z]+\<close> at the head of a text, with the text left. The plus is
  greedy, and giving a letter back never helps: whatever follows in the expression (\<^verbatim>\<open>\s\<close> or
  \<^verbatim>\<open>\b\<close>) fails in front of a lower-case letter. So the run of lower-case letters is taken
  whole.
\<close>

fun cap_word :: "string \<Rightarrow> (string \<times> string) option" where
  "cap_word [] = None"
| "cap_word (c # cs) =
     (if is_upper c \<and> takeWhile is_lower cs \<noteq> []
      then Some (c # takeWhile is_lower cs, dropWhile is_lower cs)
      else None)"

text \<open>
  \<open>extensions matched rest\<close> lists the ends at which the group \<^verbatim>\<open>(?:\s+[A-Z][a-z]+)*\<close> can stop
  after \<open>matched\<close>, the shortest first: after no repetition, after one, and so on. In a
  repetition \<^verbatim>\<open>\s+\<close> takes the whole run of white space, since \<^verbatim>\<open>[A-Z]\<close> fails in front of
  white space.
\<close>

function extensions :: "string \<Rightarrow> string \<Rightarrow> (string \<times> string) list" where
  "extensions matched rest =
     (case (if takeWhile is_space rest = [] then None
            else cap_word (dropWhile is_space rest)) of
        None \<Rightarrow> [(matched, rest)]
      | Some (w, rest') \<Rightarrow>
          (matched, rest) # extensions (matched @ takeWhile is_space rest @ w) rest')"
  by pat_completeness auto
termination
proof (relation "measure (\<lambda>(matched, rest). length rest)")
  show "wf (measure (\<lambda>(matched, rest). length rest))" by simp
next
  fix matched rest :: string and x2 x y
  assume a: "(if takeWhile is_space rest = [] then None
              else cap_word (dropWhile is_space rest)) = Some x2" and b: "(x, y) = x2"
  from a b have c: "cap_word (dropWhile is_space rest) = Some (x, y)"
    by (simp split: if_splits)
  then obtain d ds where d: "dropWhile is_space rest = d # ds" and y: "y = dropWhile is_lower ds"
    by (cases "dropWhile is_space rest") (auto split: if_splits)
  have "length y \<le> length ds" unfolding y by (rule length_dropWhile_le)
  also have "\<dots> < length (dropWhile is_space rest)" by (simp add: d)
  also have "\<dots> \<le> length rest" by (rule length_dropWhile_le)
  finally show "((matched @ takeWhile is_space rest @ x, y), (matched, rest))
                \<in> measure (\<lambda>(matched, rest). length rest)" by simp
qed

declare extensions.simps [simp del]

text \<open>
  The match at the head of a text, with the text left: the engine prefers the most
  repetitions of the group, and gives one up when the closing \<^verbatim>\<open>\b\<close> fails.
\<close>

definition noun_here :: "char option \<Rightarrow> string \<Rightarrow> (string \<times> string) option" where
  "noun_here prev s =
     (if \<not> word_boundary prev (first_char s) then None
      else case cap_word s of
        None \<Rightarrow> None
      | Some (w, rest) \<Rightarrow>
          find (\<lambda>(matched, rest'). word_boundary (Some (last matched)) (first_char rest'))
               (rev (extensions w rest)))"

text \<open>\<^verbatim>\<open>findall\<close> looks for the next match behind the last one, and moves on by one character
  where there is none.\<close>

function findall_nouns :: "char option \<Rightarrow> string \<Rightarrow> string list" where
  "findall_nouns prev [] = []"
| "findall_nouns prev (c # cs) =
     (case noun_here prev (c # cs) of
        None \<Rightarrow> findall_nouns (Some c) cs
      | Some (matched, rest) \<Rightarrow> matched # findall_nouns (Some (last matched)) rest)"
  by pat_completeness auto
termination
proof (relation "measure (\<lambda>(prev, s). length s)")
  show "wf (measure (\<lambda>(prev, s). length s))" by simp
next
  fix prev :: "char option" and c :: char and cs :: string
  show "((Some c, cs), (prev, c # cs)) \<in> measure (\<lambda>(prev, s). length s)" by simp
next
  fix prev :: "char option" and c :: char and cs :: string and x2 x y
  assume a: "noun_here prev (c # cs) = Some x2" and b: "(x, y) = x2"
  have ext: "length r \<le> length rest" if "(m, r) \<in> set (extensions w rest)" for m r w rest
    using that
  proof (induction w rest rule: extensions.induct)
    case (1 matched rest)
    show ?case
    proof (cases "if takeWhile is_space rest = [] then None
                  else cap_word (dropWhile is_space rest)")
      case None
      with "1.prems" show ?thesis by (simp add: extensions.simps [of matched rest])
    next
      case (Some p)
      obtain w' rest' where p: "p = (w', rest')" by (cases p)
      from Some p have c: "cap_word (dropWhile is_space rest) = Some (w', rest')"
        by (simp split: if_splits)
      then obtain d ds where d: "dropWhile is_space rest = d # ds"
        and y: "rest' = dropWhile is_lower ds"
        by (cases "dropWhile is_space rest") (auto split: if_splits)
      have "length rest' \<le> length ds" unfolding y by (rule length_dropWhile_le)
      also have "\<dots> \<le> length (dropWhile is_space rest)" by (simp add: d)
      also have "\<dots> \<le> length rest" by (rule length_dropWhile_le)
      finally have le: "length rest' \<le> length rest" .
      from "1.prems" Some p have
        "(m, r) = (matched, rest) \<or> (m, r) \<in> set (extensions (matched @ takeWhile is_space rest @ w') rest')"
        by (simp add: extensions.simps [of matched rest])
      then show ?thesis
      proof
        assume "(m, r) = (matched, rest)"
        then show ?thesis by simp
      next
        assume "(m, r) \<in> set (extensions (matched @ takeWhile is_space rest @ w') rest')"
        from "1.IH" [OF Some p [symmetric] this] le show ?thesis by simp
      qed
    qed
  qed
  from a b have n: "noun_here prev (c # cs) = Some (x, y)" by simp
  obtain w rest where w: "cap_word (c # cs) = Some (w, rest)"
    and f: "find (\<lambda>(matched, rest'). word_boundary (Some (last matched)) (first_char rest'))
              (rev (extensions w rest)) = Some (x, y)"
  proof (cases "cap_word (c # cs)")
    case None
    with n show ?thesis by (simp add: noun_here_def split: if_splits)
  next
    case (Some p)
    obtain w rest where "p = (w, rest)" by (cases p)
    with Some n that show ?thesis by (simp add: noun_here_def split: if_splits)
  qed
  have found: "z \<in> set zs" if "find Q zs = Some z"
    for Q and zs :: "(string \<times> string) list" and z
    using that by (induction zs) (simp_all split: if_splits)
  from f have "(x, y) \<in> set (rev (extensions w rest))" by (rule found)
  then have "(x, y) \<in> set (extensions w rest)" by simp
  then have "length y \<le> length rest" by (rule ext)
  also have "length rest \<le> length cs"
  proof -
    from w have "rest = dropWhile is_lower cs" by (simp split: if_splits)
    then show ?thesis by (simp add: length_dropWhile_le)
  qed
  finally show "((Some (last x), y), (prev, c # cs)) \<in> measure (\<lambda>(prev, s). length s)"
    by simp
qed

subsection \<open>The tables\<close>

text \<open>The dictionary \<^verbatim>\<open>KNOWN_ENTITIES\<close> in the order of its keys. The source lists the key
  \<^verbatim>\<open>mistral\<close> twice with the same value; a dictionary holds it once, at its first place.\<close>

definition KNOWN_ENTITIES :: "(string \<times> string) list" where
  "KNOWN_ENTITIES =
     [
      (''openai'', ''OpenAI''), (''anthropic'', ''Anthropic''), (''google'', ''Google''),
      (''deepmind'', ''DeepMind''), (''meta'', ''Meta''), (''microsoft'', ''Microsoft''),
      (''nvidia'', ''NVIDIA''), (''apple'', ''Apple''), (''amazon'', ''Amazon''),
      (''aws'', ''AWS''), (''hugging face'', ''Hugging Face''),
      (''huggingface'', ''Hugging Face''), (''stability ai'', ''Stability AI''),
      (''cohere'', ''Cohere''), (''mistral'', ''Mistral''), (''inflection'', ''Inflection''),
      (''character ai'', ''Character AI''), (''elevenlabs'', ''ElevenLabs''),
      (''eleven labs'', ''ElevenLabs''), (''runway'', ''Runway''),
      (''midjourney'', ''Midjourney''), (''adobe'', ''Adobe''),
      (''salesforce'', ''Salesforce''), (''ibm'', ''IBM''), (''intel'', ''Intel''),
      (''amd'', ''AMD''), (''tesla'', ''Tesla''), (''xai'', ''xAI''),
      (''perplexity'', ''Perplexity''), (''gpt-4'', ''GPT-4''), (''gpt-5'', ''GPT-5''),
      (''gpt4'', ''GPT-4''), (''gpt5'', ''GPT-5''), (''chatgpt'', ''ChatGPT''),
      (''claude'', ''Claude''), (''gemini'', ''Gemini''), (''llama'', ''Llama''),
      (''copilot'', ''Copilot''), (''dall-e'', ''DALL-E''), (''dalle'', ''DALL-E''),
      (''sora'', ''Sora''), (''stable diffusion'', ''Stable Diffusion''), (''flux'', ''Flux''),
      (''whisper'', ''Whisper''), (''codex'', ''Codex''), (''claude code'', ''Claude Code''),
      (''cursor'', ''Cursor''), (''replit'', ''Replit''),
      (''github copilot'', ''GitHub Copilot''), (''xcode'', ''Xcode''),
      (''sam altman'', ''Sam Altman''), (''dario amodei'', ''Dario Amodei''),
      (''demis hassabis'', ''Demis Hassabis''), (''yann lecun'', ''Yann LeCun''),
      (''andrej karpathy'', ''Andrej Karpathy''), (''karpathy'', ''Andrej Karpathy''),
      (''ilya sutskever'', ''Ilya Sutskever''), (''elon musk'', ''Elon Musk''),
      (''sundar pichai'', ''Sundar Pichai''), (''satya nadella'', ''Satya Nadella''),
      (''jensen huang'', ''Jensen Huang''), (''mark zuckerberg'', ''Mark Zuckerberg''),
      (''funding'', ''Funding & Investment''), (''investment'', ''Funding & Investment''),
      (''raises'', ''Funding & Investment''), (''valuation'', ''Funding & Investment''),
      (''series a'', ''Funding & Investment''), (''series b'', ''Funding & Investment''),
      (''series c'', ''Funding & Investment''), (''ipo'', ''IPO''),
      (''regulation'', ''AI Regulation''), (''safety'', ''AI Safety''),
      (''alignment'', ''AI Alignment''), (''misalignment'', ''AI Alignment''),
      (''ethics'', ''AI Ethics''), (''bias'', ''AI Ethics''),
      (''autonomous'', ''Autonomous Systems''), (''robotics'', ''Robotics''),
      (''self-driving'', ''Autonomous Vehicles''),
      (''autonomous vehicle'', ''Autonomous Vehicles''),
      (''healthcare'', ''AI in Healthcare''), (''medical'', ''AI in Healthcare''),
      (''drug discovery'', ''AI in Healthcare''), (''agents'', ''AI Agents''),
      (''agentic'', ''AI Agents''), (''reasoning'', ''AI Reasoning''),
      (''chain of thought'', ''AI Reasoning''), (''multimodal'', ''Multimodal AI''),
      (''vision'', ''Computer Vision''), (''voice'', ''Voice AI''), (''speech'', ''Voice AI''),
      (''text-to-speech'', ''Voice AI''), (''video'', ''Video AI''),
      (''text-to-video'', ''Video AI''), (''training'', ''Model Training''),
      (''fine-tuning'', ''Model Training''), (''inference'', ''AI Inference''),
      (''deployment'', ''AI Deployment''), (''open source'', ''Open Source AI''),
      (''open-source'', ''Open Source AI'')]"

text \<open>The words of the list in the test \<^verbatim>\<open>noun.lower() not in [...]\<close>.\<close>

definition COMMON_WORDS :: "string list" where
  "COMMON_WORDS =
     [
      ''the'', ''this'', ''that'', ''with'', ''from'', ''have'', ''been'', ''will'', ''what'',
      ''when'', ''where'', ''which'', ''would'', ''could'', ''should'', ''about'', ''after'',
      ''before'', ''being'', ''between'', ''both'', ''each'', ''more'', ''most'', ''other'',
      ''some'', ''such'', ''than'', ''then'', ''these'', ''they'', ''through'', ''under'',
      ''very'', ''just'', ''also'', ''into'', ''over'', ''only'', ''well'', ''back'', ''even'',
      ''still'', ''first'', ''last'', ''long'', ''great'', ''little'', ''much'', ''never'',
      ''now'', ''old'', ''see'', ''way'', ''who'', ''come'', ''make'', ''like'', ''time'',
      ''just'', ''know'', ''take'', ''people'', ''year'', ''good'', ''give'', ''day'',
      ''most'', ''new'', ''want'', ''because'', ''any'', ''find'', ''here'', ''thing'',
      ''think'', ''say'', ''she'', ''two'', ''how'', ''our'', ''work'', ''world'', ''life'',
      ''hand'', ''part'', ''child'', ''eye'', ''woman'', ''place'', ''case'', ''week'',
      ''company'', ''system'', ''program'', ''question'', ''government'', ''number'',
      ''night'', ''point'', ''home'', ''water'', ''room'', ''mother'', ''area'', ''money'',
      ''story'', ''fact'', ''month'', ''different'', ''right'', ''study'', ''book'', ''word'',
      ''business'', ''issue'', ''side'', ''kind'', ''head'', ''house'', ''service'',
      ''friend'', ''father'', ''power'', ''hour'', ''game'', ''line'', ''end'', ''member'',
      ''law'', ''car'', ''city'', ''community'', ''name'', ''president'', ''team'', ''minute'',
      ''idea'', ''body'', ''information'', ''today'', ''read'', ''thread'', ''finding'',
      ''view'', ''view'']"

subsection \<open>The extractor\<close>

text \<open>The set \<^verbatim>\<open>found_entities\<close> is the list of its elements in the order in which they were
  first added; \<^verbatim>\<open>found_entities.add\<close> is \<^const>\<open>List.insert\<close>.\<close>

definition pattern_found :: "string \<Rightarrow> string \<Rightarrow> bool" where
  "pattern_found text_lower pattern =
     (if length pattern \<le> 3 then search_word None text_lower pattern
      else contains text_lower pattern)"

definition known_found :: "string \<Rightarrow> string list" where
  "known_found text_lower =
     fold (\<lambda>(pattern, canonical_name) found_entities.
             if pattern_found text_lower pattern
             then List.insert canonical_name found_entities else found_entities)
          KNOWN_ENTITIES []"

definition is_proper_noun :: "string \<Rightarrow> bool" where
  "is_proper_noun noun = (length noun > 3 \<and> lower noun \<notin> set COMMON_WORDS)"

definition extract_entities :: "string \<Rightarrow> string list" where
  "extract_entities txt =
     (if txt = [] then []
      else fold (\<lambda>noun found_entities.
                   if is_proper_noun noun then List.insert noun found_entities
                   else found_entities)
                (findall_nouns None txt) (known_found (lower txt)))"

subsection \<open>Notions used by the statements about the extractor\<close>

definition last_char :: "string \<Rightarrow> char option" where
  "last_char s = (if s = [] then None else Some (last s))"

text \<open>The character in front of the position behind \<open>a\<close>, when \<open>prev\<close> stands in front of \<open>a\<close>.\<close>

definition last_char_after :: "char option \<Rightarrow> string \<Rightarrow> char option" where
  "last_char_after prev a = (if a = [] then prev else Some (last a))"

text \<open>The pattern occurs in the text, somewhere.\<close>

definition occurs_in :: "string \<Rightarrow> string \<Rightarrow> bool" where
  "occurs_in s pattern = (\<exists>a b. s = a @ pattern @ b)"

text \<open>The pattern occurs in the text with a word boundary at both of its ends.\<close>

definition occurs_as_word :: "string \<Rightarrow> string \<Rightarrow> bool" where
  "occurs_as_word s pattern =
     (\<exists>a b. s = a @ pattern @ b \<and>
            word_boundary (last_char a) (first_char (pattern @ b)) \<and>
            word_boundary (last_char (a @ pattern)) (first_char b))"

section \<open>Normalised items\<close>

text \<open>
  The records handed to \<^verbatim>\<open>normalize_item\<close> are dictionaries: an article has the keys
  \<^verbatim>\<open>headline\<close>, \<^verbatim>\<open>description\<close>, \<^verbatim>\<open>url\<close> and \<^verbatim>\<open>source\<close>, a post the keys of \<^typ>\<open>post\<close>, a thread the
  keys \<^verbatim>\<open>posts\<close> and \<^verbatim>\<open>username\<close>. One record type with every key optional holds all three.
\<close>

record source_item = post +
  headline :: "string option"
  description :: "string option"
  source :: "string option"
  thread_posts :: "post list option"

text \<open>
  The dictionary built by \<^verbatim>\<open>normalize_item\<close>, with its keys \<^verbatim>\<open>type\<close>, \<^verbatim>\<open>title\<close>, \<^verbatim>\<open>text\<close>,
  \<^verbatim>\<open>url\<close>, \<^verbatim>\<open>source\<close>, \<^verbatim>\<open>entities\<close> and \<^verbatim>\<open>original\<close>.
\<close>

record normalized_item =
  item_type :: string
  title :: string
  item_text :: string
  item_url :: string
  item_source :: string
  entities :: "string list"
  original :: source_item

text \<open>\<^verbatim>\<open>sep.join(strings)\<close>\<close>

fun join :: "string \<Rightarrow> string list \<Rightarrow> string" where
  "join sep [] = []"
| "join sep [s] = s"
| "join sep (s # t # ts) = s @ sep @ join sep (t # ts)"

text \<open>\<^verbatim>\<open>s[:100] + '...' if len(s) > 100 else s\<close>\<close>

definition truncated :: "string \<Rightarrow> string" where
  "truncated s = (if length s > 100 then take 100 s @ ''...'' else s)"

definition normalize_item :: "source_item \<Rightarrow> string \<Rightarrow> normalized_item option" where
  "normalize_item item item_type_arg =
     (if item_type_arg = ''article'' then
        (let txt = get_or [] (headline item) @ '' '' @ get_or [] (description item) in
         Some \<lparr>item_type = ''article'', title = get_or [] (headline item), item_text = txt,
               item_url = get_or ''#'' (url item), item_source = get_or [] (source item),
               entities = extract_entities txt, original = item\<rparr>)
      else if item_type_arg = ''x_post'' then
        (let txt = get_or [] (body item) in
         Some \<lparr>item_type = ''x_post'', title = truncated txt, item_text = txt,
               item_url = get_or ''#'' (url item),
               item_source = ''@'' @ get_or [] (username item),
               entities = extract_entities txt, original = item\<rparr>)
      else if item_type_arg = ''x_thread'' then
        (let ps = get_or [] (thread_posts item);
             combined_text = join '' '' (map (\<lambda>p. get_or [] (body p)) ps);
             first_text = (case ps of [] \<Rightarrow> [] | p # rest \<Rightarrow> get_or [] (body p))
         in
         Some \<lparr>item_type = ''x_thread'', title = truncated first_text, item_text = combined_text,
               item_url = (case ps of [] \<Rightarrow> ''#'' | p # rest \<Rightarrow> get_or ''#'' (url p)),
               item_source = ''@'' @ get_or [] (username item),
               entities = extract_entities combined_text, original = item\<rparr>)
      else None)"

section \<open>Topic clustering\<close>

text \<open>A cluster: the dictionary with the keys \<^verbatim>\<open>topic\<close>, \<^verbatim>\<open>entities\<close> and \<^verbatim>\<open>items\<close>.\<close>

record cluster =
  topic :: "string option"
  shared_entities :: "string list"
  cluster_items :: "normalized_item list"

text \<open>The list in the test \<^verbatim>\<open>if e not in [...]\<close> of the topic choice.\<close>

definition GENERIC_TOPICS :: "string list" where
  "GENERIC_TOPICS =
     [''Funding & Investment'', ''AI Safety'', ''AI Agents'', ''Model Training'', ''AI Reasoning'']"

text \<open>\<^verbatim>\<open>for i, item in enumerate(items): for entity in item.get('entities', set()):
  entity_to_items[entity].append(i)\<close>\<close>

definition entity_to_items :: "normalized_item list \<Rightarrow> (string \<times> nat list) list" where
  "entity_to_items items =
     fold (\<lambda>(i, item) m. fold (\<lambda>entity m'. append_to entity i m') (entities item) m)
       (enumerate 0 items) []"

text \<open>\<^verbatim>\<open>sorted(entity_to_items.items(), key=lambda x: len(x[1]), reverse=True)\<close>: a stable sort
  in descending order of the length.\<close>

definition sorted_entities :: "normalized_item list \<Rightarrow> (string \<times> nat list) list" where
  "sorted_entities items =
     sort_key (\<lambda>(entity, item_indices). - int (length item_indices)) (entity_to_items items)"

text \<open>\<^verbatim>\<open>set.intersection(*sets)\<close>: without any argument the call raises \<^verbatim>\<open>TypeError\<close>.\<close>

fun intersection :: "string list list \<Rightarrow> error + string list" where
  "intersection [] = Inl TypeError"
| "intersection (s # ss) = Inr (filter (\<lambda>e. \<forall>t\<in>set ss. e \<in> set t) s)"

text \<open>\<^verbatim>\<open>topic = entity; for e in shared_entities: if e not in [...]: topic = e; break\<close>\<close>

fun pick_topic :: "string \<Rightarrow> string list \<Rightarrow> string" where
  "pick_topic entity [] = entity"
| "pick_topic entity (e # es) = (if e \<notin> set GENERIC_TOPICS then e else pick_topic entity es)"

text \<open>
  The loop over \<^verbatim>\<open>sorted_entities\<close>, with the state \<^verbatim>\<open>used_items\<close> and \<^verbatim>\<open>clusters\<close>;
  \<open>new_cluster\<close> is the dictionary appended to \<^verbatim>\<open>clusters\<close>, \<open>chosen\<close> the list
  \<^verbatim>\<open>cluster_items\<close> and \<open>shared\<close> the intersection.

  The order in which \<^verbatim>\<open>for e in shared_entities\<close> iterates over the set depends on the hashes
  of the strings, which Python draws anew for every run. The model takes the order as the
  parameter \<open>iter\<close>: it maps the list that stands for the set to the sequence of the
  iteration. A statement that needs \<open>iter\<close> to yield the elements of the set says so.

  An index \<open>i\<close> of \<^verbatim>\<open>items[i]\<close> comes from \<^verbatim>\<open>enumerate(items)\<close> and is in range.
\<close>

definition new_cluster ::
  "(string list \<Rightarrow> string list) \<Rightarrow> string \<Rightarrow> normalized_item list \<Rightarrow> string list \<Rightarrow> cluster" where
  "new_cluster iter entity chosen shared =
     (let shared_entities = (if shared = [] then [entity] else shared);
          topic = pick_topic entity (iter shared_entities)
      in \<lparr>topic = Some topic, shared_entities = shared_entities, cluster_items = chosen\<rparr>)"

fun claim_clusters ::
  "(string list \<Rightarrow> string list) \<Rightarrow> normalized_item list \<Rightarrow> int \<Rightarrow> (string \<times> nat list) list \<Rightarrow>
   nat set \<Rightarrow> cluster list \<Rightarrow> error + (nat set \<times> cluster list)" where
  "claim_clusters iter items min_cluster_size [] used_items clusters = Inr (used_items, clusters)"
| "claim_clusters iter items min_cluster_size ((entity, item_indices) # rest) used_items clusters =
     (let available_indices = filter (\<lambda>i. i \<notin> used_items) item_indices in
      if int (length available_indices) < min_cluster_size
      then claim_clusters iter items min_cluster_size rest used_items clusters
      else
        (let chosen = map (\<lambda>i. items ! i) available_indices in
         case intersection (map entities chosen) of
           Inl e \<Rightarrow> Inl e
         | Inr shared \<Rightarrow>
             claim_clusters iter items min_cluster_size rest
               (used_items \<union> set available_indices)
               (clusters @ [new_cluster iter entity chosen shared])))"

text \<open>\<^verbatim>\<open>for i, item in enumerate(items): if i not in used_items: clusters.append(...)\<close>\<close>

definition singletons :: "normalized_item list \<Rightarrow> nat set \<Rightarrow> cluster list" where
  "singletons items used_items =
     map (\<lambda>(i, item). \<lparr>topic = None, shared_entities = entities item, cluster_items = [item]\<rparr>)
       (filter (\<lambda>(i, item). i \<notin> used_items) (enumerate 0 items))"

text \<open>The sort key \<^verbatim>\<open>(-len(c['items']), c['topic'] or 'zzz')\<close>; the empty string is false in
  Python, as \<^verbatim>\<open>None\<close> is. Tuples and strings are ordered lexicographically.\<close>

definition topic_or_zzz :: "cluster \<Rightarrow> string" where
  "topic_or_zzz c = (case topic c of None \<Rightarrow> ''zzz'' | Some t \<Rightarrow> if t = [] then ''zzz'' else t)"

definition cluster_key :: "cluster \<Rightarrow> int \<times> string" where
  "cluster_key c = (- int (length (cluster_items c)), topic_or_zzz c)"

definition cluster_by_topic ::
  "(string list \<Rightarrow> string list) \<Rightarrow> normalized_item list \<Rightarrow> int \<Rightarrow> error + cluster list" where
  "cluster_by_topic iter items min_cluster_size =
     (if items = [] then Inr []
      else case claim_clusters iter items min_cluster_size (sorted_entities items) {} [] of
        Inl e \<Rightarrow> Inl e
      | Inr (used_items, clusters) \<Rightarrow>
          Inr (sort_key cluster_key (clusters @ singletons items used_items)))"

subsection \<open>Notions used by the statements about the clusterer\<close>

text \<open>The order of iteration that follows the list of the model.\<close>

definition list_order :: "string list \<Rightarrow> string list" where
  "list_order es = es"

text \<open>The cluster \<open>c\<close> holds the items at the indices \<open>ixs\<close>, in this order.\<close>

definition holds_indices :: "normalized_item list \<Rightarrow> cluster \<Rightarrow> nat list \<Rightarrow> bool" where
  "holds_indices items c ixs = (cluster_items c = map (\<lambda>i. items ! i) ixs)"

text \<open>A property \<open>P\<close> of clusters holds of every cluster the loop can build from the entry
  \<open>a\<close> of the index.\<close>

definition step_ok ::
  "(cluster \<Rightarrow> bool) \<Rightarrow> (string list \<Rightarrow> string list) \<Rightarrow> normalized_item list \<Rightarrow> int \<Rightarrow>
   (string \<times> nat list) \<Rightarrow> bool" where
  "step_ok P iter items mcs a =
     (\<forall>avail shared. set avail \<subseteq> set (snd a) \<and> avail \<noteq> [] \<and> mcs \<le> int (length avail) \<and>
        intersection (map (\<lambda>i. entities (items ! i)) avail) = Inr shared \<longrightarrow>
        P (new_cluster iter (fst a) (map (\<lambda>i. items ! i) avail) shared))"

text \<open>The pairs of an entity and an index, in the order in which the index is built.\<close>

definition entity_pairs :: "normalized_item list \<Rightarrow> (string \<times> nat) list" where
  "entity_pairs items =
     concat (map (\<lambda>(i, item). map (\<lambda>e. (e, i)) (entities item)) (enumerate 0 items))"

text \<open>The indices of the items that hold an entity, in ascending order.\<close>

definition members :: "normalized_item list \<Rightarrow> string \<Rightarrow> nat list" where
  "members items e = filter (\<lambda>i. e \<in> set (entities (items ! i))) [0..<length items]"

text \<open>An item with the given entities; the other keys play no part in the clustering.\<close>

definition empty_source :: source_item where
  "empty_source = \<lparr>username = None, body = None, created_at = Unparseable, url = None,
     headline = None, description = None, source = None, thread_posts = None\<rparr>"

definition item_with :: "string \<Rightarrow> string list \<Rightarrow> normalized_item" where
  "item_with t es = \<lparr>item_type = ''article'', title = t, item_text = t, item_url = ''#'',
     item_source = [], entities = es, original = empty_source\<rparr>"

text \<open>The iteration over a set yields the elements of the set.\<close>

definition iterates_elements :: "(string list \<Rightarrow> string list) \<Rightarrow> bool" where
  "iterates_elements iter = (\<forall>es. set (iter es) = set es)"

text \<open>Every entity label is non-empty and sorts before \<^verbatim>\<open>'zzz'\<close>, as the labels that
  \<^verbatim>\<open>extract_entities\<close> produces do.\<close>

definition labels_before_zzz :: "normalized_item list \<Rightarrow> bool" where
  "labels_before_zzz items = (\<forall>it\<in>set items. \<forall>e\<in>set (entities it). e \<noteq> [] \<and> e < ''zzz'')"

text \<open>The entities of an item are a set: no label is listed twice.\<close>

definition entity_sets :: "normalized_item list \<Rightarrow> bool" where
  "entity_sets items = (\<forall>it\<in>set items. distinct (entities it))"

text \<open>What the loop guarantees of a cluster it builds.\<close>

definition claimed_cluster ::
  "(string list \<Rightarrow> string list) \<Rightarrow> normalized_item list \<Rightarrow> int \<Rightarrow> cluster \<Rightarrow> bool" where
  "claimed_cluster iter items mcs c =
     (cluster_items c \<noteq> [] \<and> mcs \<le> int (length (cluster_items c)) \<and>
      set (cluster_items c) \<subseteq> set items \<and>
      (\<forall>it\<in>set (cluster_items c). set (shared_entities c) \<subseteq> set (entities it)) \<and>
      (length (cluster_items c) = 1 \<longrightarrow>
         set (shared_entities c) = set (entities (hd (cluster_items c)))) \<and>
      (\<exists>t. topic c = Some t \<and>
           (iterates_elements iter \<longrightarrow> (\<exists>it\<in>set items. t \<in> set (entities it)))))"

text \<open>What holds of a cluster made of an item left over.\<close>

definition leftover_cluster :: "normalized_item list \<Rightarrow> cluster \<Rightarrow> bool" where
  "leftover_cluster items c =
     (\<exists>it\<in>set items. c = \<lparr>topic = None, shared_entities = entities it, cluster_items = [it]\<rparr>)"

subsection \<open>Notions used by the statement about reordered inputs\<close>

text \<open>What a cluster is, apart from the order of its items and of its shared entities.\<close>

definition cluster_view :: "cluster \<Rightarrow> string option \<times> string set \<times> normalized_item multiset" where
  "cluster_view c = (topic c, set (shared_entities c), mset (cluster_items c))"

text \<open>No two entities are held by the same number of items.\<close>

definition no_ties :: "normalized_item list \<Rightarrow> bool" where
  "no_ties items =
     inj_on (\<lambda>e. length (members items e)) (\<Union>it\<in>set items. set (entities it))"

text \<open>The order in which a set is iterated depends on the elements of the set only.\<close>

definition set_determined :: "(string list \<Rightarrow> string list) \<Rightarrow> bool" where
  "set_determined iter = (\<forall>es es'. set es = set es' \<longrightarrow> iter es = iter es')"

text \<open>An order of iteration of that kind: the ascending order of the labels.\<close>

definition sorted_iteration :: "string list \<Rightarrow> string list" where
  "sorted_iteration es = sorted_list_of_set (set es)"

text \<open>The items not yet claimed, in the order of the input.\<close>

definition unused :: "normalized_item list \<Rightarrow> nat set \<Rightarrow> normalized_item list" where
  "unused items used_items =
     map (\<lambda>i. items ! i) (filter (\<lambda>i. i \<notin> used_items) [0..<length items])"

definition single_cluster :: "normalized_item \<Rightarrow> cluster" where
  "single_cluster it = \<lparr>topic = None, shared_entities = entities it, cluster_items = [it]\<rparr>"

text \<open>The loop of \<open>claim_clusters\<close>, told with the items that are left instead of the indices
  that are used: an entity claims the items left that hold it.\<close>

fun claim_items ::
  "(string list \<Rightarrow> string list) \<Rightarrow> int \<Rightarrow> string list \<Rightarrow> normalized_item list \<Rightarrow> cluster list \<Rightarrow>
   error + (normalized_item list \<times> cluster list)" where
  "claim_items iter mcs [] remaining clusters = Inr (remaining, clusters)"
| "claim_items iter mcs (e # es) remaining clusters =
     (if int (length (filter (\<lambda>it. e \<in> set (entities it)) remaining)) < mcs
      then claim_items iter mcs es remaining clusters
      else
        (case intersection (map entities (filter (\<lambda>it. e \<in> set (entities it)) remaining)) of
           Inl x \<Rightarrow> Inl x
         | Inr shared \<Rightarrow>
             claim_items iter mcs es (filter (\<lambda>it. e \<notin> set (entities it)) remaining)
               (clusters @
                [new_cluster iter e (filter (\<lambda>it. e \<in> set (entities it)) remaining) shared])))"

text \<open>Two runs of the loop end alike: both raise, or both return the same items left, in
  some order, and clusters with the same views.\<close>

definition same_outcome ::
  "error + (normalized_item list \<times> cluster list) \<Rightarrow>
   error + (normalized_item list \<times> cluster list) \<Rightarrow> bool" where
  "same_outcome a b =
     (case a of
        Inl x \<Rightarrow> b = Inl x
      | Inr (r, cl) \<Rightarrow>
          (\<exists>r' cl'. b = Inr (r', cl') \<and> mset r' = mset r \<and>
                    map cluster_view cl' = map cluster_view cl))"

text \<open>The sort key of a cluster, read off its view.\<close>

definition view_key :: "string option \<times> string set \<times> normalized_item multiset \<Rightarrow> int \<times> string" where
  "view_key v =
     (case v of (t, s, m) \<Rightarrow>
        (- int (size m), (case t of None \<Rightarrow> ''zzz'' | Some l \<Rightarrow> if l = [] then ''zzz'' else l)))"

section \<open>Properties of the thread detector\<close>

subsection \<open>Rounding to a float\<close>

lemma pow2_pos: "0 < pow2 e" by (simp add: pow2_def)

lemma pow2_nat: "pow2 (int n) = 2 ^ n" by (simp add: pow2_def)

lemma pow2_neg: "pow2 (- int n) = 1 / 2 ^ n" by (cases n) (simp_all add: pow2_def nat_add_distrib)

lemma pow2_Suc: "pow2 (e + 1) = 2 * pow2 e"
proof (cases "0 \<le> e")
  case True
  then show ?thesis by (simp add: pow2_def nat_add_distrib)
next
  case False
  define n where "n = nat (- e - 1)"
  have e: "e = - int (Suc n)" using False by (simp add: n_def)
  have "e + 1 = - int n" using e by simp
  then show ?thesis using e by (simp only: pow2_neg) simp
qed

lemma pow2_add_nat: "pow2 (e + int n) = 2 ^ n * pow2 e"
proof (induction n)
  case 0
  then show ?case by simp
next
  case (Suc n)
  have "e + int (Suc n) = (e + int n) + 1" by simp
  then have "pow2 (e + int (Suc n)) = pow2 ((e + int n) + 1)" by (simp only:)
  also have "\<dots> = 2 * pow2 (e + int n)" by (rule pow2_Suc)
  finally show ?case by (simp add: Suc)
qed

lemma pow2_mono: "a \<le> b \<Longrightarrow> pow2 a \<le> pow2 b"
proof -
  assume "a \<le> b"
  then obtain n where "b = a + int n" by (metis zle_iff_zadd)
  then have "pow2 b = 2 ^ n * pow2 a" by (simp add: pow2_add_nat)
  moreover have "(1::rat) \<le> 2 ^ n" by simp
  ultimately show ?thesis using pow2_pos [of a] by (simp add: mult_le_cancel_right1)
qed

lemma exponent_bounds:
  assumes "0 < x"
  shows "pow2 (exponent x) \<le> x" and "x < pow2 (exponent x + 1)"
proof -
  have "pow2 (exponent x) \<le> x \<and> x < pow2 (exponent x + 1)"
  proof (cases "1 \<le> x")
    case True
    then have p: "0 < \<lfloor>x\<rfloor>" by linarith
    from bitlen_bounds [OF p] have
      l: "2 ^ nat (bitlen \<lfloor>x\<rfloor> - 1) \<le> \<lfloor>x\<rfloor>" and u: "\<lfloor>x\<rfloor> < 2 ^ nat (bitlen \<lfloor>x\<rfloor>)" by auto
    have b: "1 \<le> bitlen \<lfloor>x\<rfloor>" using p by (simp add: bitlen_alt_def)
    have e: "exponent x = bitlen \<lfloor>x\<rfloor> - 1" using True by (simp add: exponent_def)
    have "pow2 (exponent x) = 2 ^ nat (bitlen \<lfloor>x\<rfloor> - 1)" using b by (simp add: e pow2_def)
    also have "\<dots> = of_int (2 ^ nat (bitlen \<lfloor>x\<rfloor> - 1))" by simp
    also have "\<dots> \<le> of_int \<lfloor>x\<rfloor>" using l by (simp only: of_int_le_iff)
    also have "\<dots> \<le> x" by simp
    finally have 1: "pow2 (exponent x) \<le> x" .
    have "\<lfloor>x\<rfloor> + 1 \<le> 2 ^ nat (bitlen \<lfloor>x\<rfloor>)" using u by simp
    then have "(of_int (\<lfloor>x\<rfloor> + 1) :: rat) \<le> of_int (2 ^ nat (bitlen \<lfloor>x\<rfloor>))"
      by (simp only: of_int_le_iff)
    moreover have "x < of_int (\<lfloor>x\<rfloor> + 1)" by linarith
    ultimately have "x < of_int (2 ^ nat (bitlen \<lfloor>x\<rfloor>))" by linarith
    also have "\<dots> = pow2 (exponent x + 1)" using b by (simp add: e pow2_def)
    finally show ?thesis using 1 by simp
  next
    case False
    define y where "y = 1 / x"
    define n where "n = \<lceil>y\<rceil> - 1"
    from False assms have y1: "1 < y" by (simp add: y_def)
    then have p: "0 < n" unfolding n_def by linarith
    have e: "exponent x = - bitlen n" using False by (simp add: exponent_def n_def y_def)
    from bitlen_bounds [OF p] have
      l: "2 ^ nat (bitlen n - 1) \<le> n" and u: "n < 2 ^ nat (bitlen n)" by auto
    have b: "1 \<le> bitlen n" using p by (simp add: bitlen_alt_def)
    have x: "x = 1 / y" by (simp add: y_def)
    have "\<lceil>y\<rceil> \<le> 2 ^ nat (bitlen n)" using u by (simp add: n_def)
    then have "y \<le> of_int (2 ^ nat (bitlen n))" by (simp only: ceiling_le_iff)
    then have yu: "y \<le> 2 ^ nat (bitlen n)" by simp
    have "(2 ^ nat (bitlen n - 1) :: rat) \<le> of_int n" using l by simp
    moreover have "of_int n < y" unfolding n_def by linarith
    ultimately have yl: "2 ^ nat (bitlen n - 1) < y" by linarith
    have "pow2 (exponent x) = 1 / 2 ^ nat (bitlen n)" using b by (simp add: e pow2_def)
    also have "\<dots> \<le> 1 / y" using yu y1 by (simp add: frac_le)
    finally have 1: "pow2 (exponent x) \<le> x" by (simp add: x)
    have "- bitlen n + 1 = - int (nat (bitlen n - 1))" using b by simp
    then have "pow2 (exponent x + 1) = 1 / 2 ^ nat (bitlen n - 1)"
      by (simp only: e pow2_neg)
    moreover have "1 / y < 1 / 2 ^ nat (bitlen n - 1)" using yl by (simp add: frac_less2)
    ultimately show ?thesis using 1 by (simp add: x)
  qed
  then show "pow2 (exponent x) \<le> x" and "x < pow2 (exponent x + 1)" by simp_all
qed

lemma round_half_even_near: "\<bar>of_int (round_half_even y) - y\<bar> \<le> 1 / 2"
proof -
  have "of_int \<lfloor>y\<rfloor> \<le> y" "y < of_int \<lfloor>y\<rfloor> + 1" by linarith+
  then show ?thesis unfolding round_half_even_def Let_def by (simp add: abs_le_iff)
qed

lemma round_half_even_le: "y \<le> of_int k \<Longrightarrow> round_half_even y \<le> k"
proof -
  assume a: "y \<le> of_int k"
  then have f: "\<lfloor>y\<rfloor> \<le> k" by (simp add: floor_le_iff)
  show ?thesis
  proof (cases "y = of_int \<lfloor>y\<rfloor>")
    case True
    then have "y - of_int \<lfloor>y\<rfloor> < 1 / 2" by simp
    then show ?thesis using f by (simp add: round_half_even_def Let_def)
  next
    case False
    then have "of_int \<lfloor>y\<rfloor> < y" by (metis of_int_floor_le order_less_le)
    with a have "(of_int \<lfloor>y\<rfloor> :: rat) < of_int k" by linarith
    then have "\<lfloor>y\<rfloor> < k" by (simp only: of_int_less_iff)
    then show ?thesis by (simp add: round_half_even_def Let_def)
  qed
qed

lemma round_double_lower:
  assumes "0 < x"
  shows "x * (1 - 1 / 2 ^ 53) \<le> round_double x"
proof -
  define e where "e = exponent x"
  define s where "s = pow2 (e - 52)"
  have sp: "0 < s" by (simp add: s_def pow2_pos)
  have "pow2 e = pow2 ((e - 53) + int 53)" by simp
  also have "\<dots> = 2 ^ 53 * pow2 (e - 53)" by (rule pow2_add_nat)
  finally have a: "pow2 (e - 53) = pow2 e / 2 ^ 53" by simp
  have "s = pow2 ((e - 53) + 1)" by (simp add: s_def)
  also have "\<dots> = 2 * pow2 (e - 53)" by (rule pow2_Suc)
  finally have s2: "s / 2 = pow2 e / 2 ^ 53" using a by simp
  have "pow2 e \<le> x" unfolding e_def by (rule exponent_bounds(1) [OF assms])
  then have h: "s / 2 \<le> x / 2 ^ 53" unfolding s2 by (simp add: divide_right_mono)
  have r: "round_double x = of_int (round_half_even (x / s)) * s"
    using assms by (simp add: round_double_def Let_def s_def e_def)
  have "x / s - 1 / 2 \<le> of_int (round_half_even (x / s))"
    using round_half_even_near [of "x / s"] by linarith
  then have "(x / s - 1 / 2) * s \<le> of_int (round_half_even (x / s)) * s"
    using sp by (simp only: mult_le_cancel_right_pos)
  moreover have "(x / s - 1 / 2) * s = x - s / 2" using sp by (simp add: left_diff_distrib)
  ultimately have "x - s / 2 \<le> round_double x" by (simp add: r)
  with h show ?thesis by (simp add: field_simps)
qed

lemma round_double_pos: "0 < x \<Longrightarrow> 0 < round_double x"
proof -
  assume a: "0 < x"
  have "0 < x * (1 - 1 / 2 ^ 53)" using a by simp
  with round_double_lower [OF a] show ?thesis by linarith
qed

lemma round_double_le_int:
  assumes "0 < x" and "x \<le> of_int n" and "n < 2 ^ 53"
  shows "round_double x \<le> of_int n"
proof -
  define e where "e = exponent x"
  define s where "s = pow2 (e - 52)"
  have sp: "0 < s" by (simp add: s_def pow2_pos)
  have "e \<le> 52"
  proof (rule ccontr)
    assume "\<not> e \<le> 52"
    then have "53 \<le> e" by simp
    then have "pow2 53 \<le> pow2 e" by (rule pow2_mono)
    also have "\<dots> \<le> x" unfolding e_def by (rule exponent_bounds(1) [OF assms(1)])
    also have "\<dots> \<le> of_int n" by (rule assms(2))
    finally have "(2 ^ 53 :: rat) \<le> of_int n" using pow2_nat [of 53] by simp
    then have "(of_int (2 ^ 53) :: rat) \<le> of_int n" by simp
    then have "2 ^ 53 \<le> n" by (simp only: of_int_le_iff)
    with assms(3) show False by simp
  qed
  define k where "k = nat (52 - e)"
  have "e - 52 = - int k" using \<open>e \<le> 52\<close> by (simp add: k_def)
  then have s: "s = 1 / 2 ^ k" by (simp only: s_def pow2_neg)
  have "x / s \<le> of_int n / s" using assms(2) sp by (simp add: divide_right_mono)
  also have "of_int n / s = of_int (n * 2 ^ k)" by (simp add: s)
  finally have "round_half_even (x / s) \<le> n * 2 ^ k" by (rule round_half_even_le)
  then have "(of_int (round_half_even (x / s)) :: rat) \<le> of_int (n * 2 ^ k)"
    by (simp only: of_int_le_iff)
  then have "of_int (round_half_even (x / s)) * s \<le> of_int (n * 2 ^ k) * s"
    using sp by (simp only: mult_le_cancel_right_pos)
  also have "of_int (n * 2 ^ k) * s = of_int n" by (simp add: s)
  finally show ?thesis using assms(1) by (simp add: round_double_def Let_def s_def e_def)
qed

lemma round_double_minus: "round_double (- x) = - round_double x"
  by (simp add: round_double_def Let_def)

lemma time_diff_minus: "time_diff (- d) = time_diff d"
  by (simp add: time_diff_def total_seconds_def round_double_minus)

lemma time_diff_zero: "time_diff 0 = 0"
  by (simp add: time_diff_def total_seconds_def round_double_def)

lemma time_diff_nonneg: "0 \<le> time_diff d" by (simp add: time_diff_def)

lemma time_diff_pos_le:
  assumes "0 < d" and "d \<le> m * 60000000" and "m \<le> 75000000"
  shows "time_diff d \<le> of_int m"
proof -
  let ?x = "of_int d / 1000000 :: rat"
  have x: "0 < ?x" using assms(1) by simp
  have "(of_int d :: rat) \<le> of_int (m * 60000000)" using assms(2) by (simp only: of_int_le_iff)
  then have "?x \<le> of_int (60 * m)" by simp
  moreover have "60 * m < 2 ^ 53" using assms(3) by simp
  ultimately have 1: "round_double ?x \<le> of_int (60 * m)" by (rule round_double_le_int [OF x])
  have p1: "0 < round_double ?x" by (rule round_double_pos [OF x])
  let ?y = "round_double ?x / 60"
  have y: "0 < ?y" using p1 by simp
  have "?y \<le> of_int m" using 1 by simp
  moreover have "m < 2 ^ 53" using assms(3) by simp
  ultimately have 2: "round_double ?y \<le> of_int m" by (rule round_double_le_int [OF y])
  have "0 < round_double ?y" by (rule round_double_pos [OF y])
  with 2 show ?thesis by (simp add: time_diff_def total_seconds_def)
qed

lemma time_diff_pos_gt:
  assumes "0 \<le> m" and "m * 60000000 < d" and "m \<le> 75000000"
  shows "of_int m < time_diff d"
proof -
  let ?x = "of_int d / 1000000 :: rat"
  let ?c = "1 - 1 / 2 ^ 53 :: rat"
  have "0 \<le> m * 60000000" using assms(1) by simp
  with assms(2) have dp: "0 < d" by linarith
  have x: "0 < ?x" using dp by simp
  have "m * 60000000 + 1 \<le> d" using assms(2) by simp
  then have "(of_int (m * 60000000 + 1) :: rat) \<le> of_int d" by (simp only: of_int_le_iff)
  then have xl: "60 * of_int m + 1 / 1000000 \<le> ?x" by simp
  have 1: "?x * ?c \<le> round_double ?x" by (rule round_double_lower [OF x])
  have p1: "0 < round_double ?x" by (rule round_double_pos [OF x])
  let ?y = "round_double ?x / 60"
  have y: "0 < ?y" using p1 by simp
  have 2: "?y * ?c \<le> round_double ?y" by (rule round_double_lower [OF y])
  have cp: "0 < ?c" by simp
  have "(60 * of_int m + 1 / 1000000) * ?c \<le> ?x * ?c" using xl cp by (simp only: mult_le_cancel_right_pos)
  with 1 have "(60 * of_int m + 1 / 1000000) * ?c \<le> round_double ?x" by linarith
  then have "(60 * of_int m + 1 / 1000000) * ?c / 60 \<le> ?y" by (simp add: divide_right_mono)
  then have "(60 * of_int m + 1 / 1000000) * ?c / 60 * ?c \<le> ?y * ?c"
    using cp by (simp only: mult_le_cancel_right_pos)
  with 2 have 3: "(60 * of_int m + 1 / 1000000) * ?c / 60 * ?c \<le> round_double ?y" by linarith
  have "(of_int m :: rat) \<le> 75000000" using assms(3) by (metis of_int_le_iff of_int_numeral)
  then have "(of_int m :: rat) < (60 * of_int m + 1 / 1000000) * ?c / 60 * ?c" by simp
  with 3 have "of_int m < round_double ?y" by linarith
  then show ?thesis by (simp add: time_diff_def total_seconds_def)
qed

lemma time_diff_le_iff:
  assumes "m \<le> 75000000"
  shows "time_diff d \<le> of_int m \<longleftrightarrow> \<bar>d\<bar> \<le> m * 60000000"
proof -
  have pos: "time_diff d \<le> of_int m \<longleftrightarrow> d \<le> m * 60000000" if d: "0 \<le> d" for d
  proof (cases "d = 0")
    case True
    then show ?thesis by (simp add: time_diff_zero)
  next
    case False
    with d have dp: "0 < d" by simp
    show ?thesis
    proof (cases "0 \<le> m")
      case True
      show ?thesis
      proof
        assume l: "time_diff d \<le> of_int m"
        show "d \<le> m * 60000000"
        proof (rule ccontr)
          assume "\<not> d \<le> m * 60000000"
          then have "m * 60000000 < d" by simp
          from time_diff_pos_gt [OF True this assms] l show False by simp
        qed
      next
        assume "d \<le> m * 60000000"
        from time_diff_pos_le [OF dp this assms] show "time_diff d \<le> of_int m" .
      qed
    next
      case False
      then have "(of_int m :: rat) < 0" by simp
      with time_diff_nonneg [of d] have "\<not> time_diff d \<le> of_int m" by linarith
      moreover have "m * 60000000 < 0" using False by simp
      with dp have "\<not> d \<le> m * 60000000" by linarith
      ultimately show ?thesis by simp
    qed
  qed
  show ?thesis
  proof (cases "0 \<le> d")
    case True
    with pos [OF True] show ?thesis by simp
  next
    case False
    then have "0 \<le> - d" by simp
    from pos [OF this] False show ?thesis by (simp add: time_diff_minus)
  qed
qed

text \<open>The quotient of the default: ten minutes are counted as ten minutes, exactly.\<close>

lemma time_diff_ten: "time_diff d \<le> 10 \<longleftrightarrow> \<bar>d\<bar> \<le> 600000000"
  using time_diff_le_iff [of 10 d] by simp


subsection \<open>Posts are conserved by every stage\<close>

lemma append_to_mset:
  "mset (concat (map snd (append_to k v m))) = add_mset v (mset (concat (map snd m)))"
  by (induction k v m rule: append_to.induct) auto

lemma fold_append_to_mset:
  "mset (concat (map snd (fold (\<lambda>p m. append_to (f p) p m) ps m0))) =
   mset ps + mset (concat (map snd m0))"
  by (induction ps arbitrary: m0) (auto simp: append_to_mset)

lemma group_by_author_mset: "mset (concat (map snd (group_by_author posts))) = mset posts"
  unfolding group_by_author_def by (simp add: fold_append_to_mset)

lemma sort_ascending_mset: "sort_ascending dt xs = Inr ys \<Longrightarrow> mset ys = mset xs"
  by (auto simp: sort_ascending_def split: if_splits)

lemma sort_descending_mset: "sort_descending dt xs = Inr ys \<Longrightarrow> mset ys = mset xs"
  by (auto simp: sort_descending_def split: if_splits)

lemma sort_each_mset:
  "sort_each m = Inr m' \<Longrightarrow> mset (concat (map snd m')) = mset (concat (map snd m))"
proof (induction m arbitrary: m')
  case Nil
  then show ?case by simp
next
  case (Cons a m)
  obtain u ps where a: "a = (u, ps)" by (cases a)
  from Cons.prems a obtain ps' m2 where
    1: "sort_ascending created_at ps = Inr ps'" and 2: "sort_each m = Inr m2" and 3: "m' = (u, ps') # m2"
    by (auto split: sum.splits)
  show ?case using Cons.IH [OF 2] sort_ascending_mset [OF 1] by (simp add: a 3)
qed

lemma finalize_posts: "item_posts (snd (finalize u first others)) = first # others"
  by (cases others) (auto simp: finalize_def)

lemma walk_posts:
  "walk m u first others ps = Inr out \<Longrightarrow>
   concat (map (\<lambda>x. item_posts (snd x)) out) = first # others @ ps"
proof (induction ps arbitrary: first others out)
  case Nil
  then show ?case by (auto simp: finalize_posts)
next
  case (Cons p ps)
  show ?case
  proof (cases "within_threshold m (created_at p) (created_at (last (first # others)))")
    case (Inl e)
    with Cons.prems show ?thesis by simp
  next
    case (Inr b)
    show ?thesis
    proof (cases b)
      case True
      with Inr Cons.prems have "walk m u first (others @ [p]) ps = Inr out" by simp
      from Cons.IH [OF this] show ?thesis by simp
    next
      case False
      with Inr Cons.prems obtain out' where
        w: "walk m u p [] ps = Inr out'" and o: "out = finalize u first others # out'"
        by (auto split: sum.splits)
      from Cons.IH [OF w] show ?thesis by (simp add: o finalize_posts)
    qed
  qed
qed

lemma author_items_posts:
  "author_items m u ps = Inr out \<Longrightarrow> concat (map (\<lambda>x. item_posts (snd x)) out) = ps"
proof (cases ps)
  case Nil
  then show "author_items m u ps = Inr out \<Longrightarrow> ?thesis" by simp
next
  case (Cons p qs)
  then show "author_items m u ps = Inr out \<Longrightarrow> ?thesis"
  proof (cases qs)
    case Nil
    assume "author_items m u ps = Inr out"
    with Cons Nil show ?thesis by auto
  next
    case (Cons q rs)
    assume "author_items m u ps = Inr out"
    with \<open>ps = p # qs\<close> Cons have "walk m u p [] (q # rs) = Inr out" by (simp del: walk.simps)
    from walk_posts [OF this] show ?thesis using \<open>ps = p # qs\<close> Cons by simp
  qed
qed

lemma collect_posts:
  "collect m by_author = Inr out \<Longrightarrow>
   concat (map (\<lambda>x. item_posts (snd x)) out) = concat (map snd by_author)"
proof (induction by_author arbitrary: out)
  case Nil
  then show ?case by simp
next
  case (Cons a rest)
  obtain u ps where a: "a = (u, ps)" by (cases a)
  from Cons.prems a obtain xs ys where
    1: "author_items m u ps = Inr xs" and 2: "collect m rest = Inr ys" and 3: "out = xs @ ys"
    by (auto split: sum.splits)
  show ?case using Cons.IH [OF 2] author_items_posts [OF 1] by (simp add: a 3)
qed

lemma mset_concat_map:
  "mset (concat (map f xs)) = sum_mset (image_mset (\<lambda>x. mset (f x)) (mset xs))"
  by (induction xs) simp_all

lemma mset_concat_map_cong:
  "mset xs = mset ys \<Longrightarrow> mset (concat (map f xs)) = mset (concat (map f ys))"
  by (simp add: mset_concat_map)

lemma detect_threads_InrE:
  assumes "detect_threads posts m = Inr out" and "posts \<noteq> []"
  obtains by_author result_items sorted_items where
    "sort_each (group_by_author posts) = Inr by_author" and
    "collect m by_author = Inr result_items" and
    "sort_descending fst result_items = Inr sorted_items" and
    "out = map snd sorted_items"
proof (cases "sort_each (group_by_author posts)")
  case (Inl e)
  with assms show ?thesis by (simp add: detect_threads_def)
next
  case s: (Inr by_author)
  show ?thesis
  proof (cases "collect m by_author")
    case (Inl e)
    with assms s show ?thesis by (simp add: detect_threads_def)
  next
    case c: (Inr result_items)
    show ?thesis
    proof (cases "sort_descending fst result_items")
      case (Inl e)
      with assms s c show ?thesis by (simp add: detect_threads_def)
    next
      case d: (Inr sorted_items)
      with assms s c have "out = map snd sorted_items" by (simp add: detect_threads_def)
      with s c d that show ?thesis by blast
    qed
  qed
qed

lemma detect_threads_conserves:
  assumes "detect_threads posts m = Inr out"
  shows "mset (concat (map item_posts out)) = mset posts"
proof (cases "posts = []")
  case True
  with assms show ?thesis by (simp add: detect_threads_def)
next
  case False
  with assms obtain by_author result_items sorted_items where
    s: "sort_each (group_by_author posts) = Inr by_author" and
    c: "collect m by_author = Inr result_items" and
    d: "sort_descending fst result_items = Inr sorted_items" and
    o: "out = map snd sorted_items"
    by (rule detect_threads_InrE)
  have "mset (concat (map item_posts out)) = mset (concat (map (\<lambda>x. item_posts (snd x)) sorted_items))"
    by (simp add: o comp_def)
  also have "\<dots> = mset (concat (map (\<lambda>x. item_posts (snd x)) result_items))"
    by (rule mset_concat_map_cong) (rule sort_descending_mset [OF d])
  also have "\<dots> = mset (concat (map snd by_author))"
    by (simp add: collect_posts [OF c])
  also have "\<dots> = mset posts"
    by (simp add: sort_each_mset [OF s] group_by_author_mset)
  finally show ?thesis .
qed

subsection \<open>When the detector returns\<close>

lemma is_naive_time_key [simp]: "is_naive (time_key k) = is_naive k"
  by (cases k) (simp_all add: time_key_def datetime_min_utc_def)

lemma uniform_kind_subset:
  "uniform_kind ks \<Longrightarrow> set ks' \<subseteq> set ks \<Longrightarrow> uniform_kind ks'"
  unfolding uniform_kind_def list_all_iff by blast

lemma uniform_kind_comparable:
  "uniform_kind (map dt xs) \<Longrightarrow> comparable (map (\<lambda>x. time_key (dt x)) xs)"
  unfolding uniform_kind_def comparable_def list_all_iff by auto

lemma sort_ascending_returns:
  "uniform_kind (map dt xs) \<Longrightarrow> sort_ascending dt xs = Inr (sort_key (\<lambda>x. reading (time_key (dt x))) xs)"
  by (simp add: sort_ascending_def uniform_kind_comparable)

lemma sort_descending_returns:
  "uniform_kind (map dt xs) \<Longrightarrow> sort_descending dt xs = Inr (sort_key (\<lambda>x. - reading (time_key (dt x))) xs)"
  by (simp add: sort_descending_def uniform_kind_comparable)

lemma sort_each_returns:
  "uniform_kind (map created_at (concat (map snd m))) \<Longrightarrow> \<exists>m'. sort_each m = Inr m'"
proof (induction m)
  case Nil
  then show ?case by simp
next
  case (Cons a m)
  obtain u ps where a: "a = (u, ps)" by (cases a)
  have "uniform_kind (map created_at ps)"
    by (rule uniform_kind_subset [OF Cons.prems]) (auto simp: a)
  then have 1: "sort_ascending created_at ps = Inr (sort_key (\<lambda>x. reading (time_key (created_at x))) ps)"
    by (rule sort_ascending_returns)
  have "uniform_kind (map created_at (concat (map snd m)))"
    by (rule uniform_kind_subset [OF Cons.prems]) (auto simp: a)
  from Cons.IH [OF this] obtain m' where "sort_each m = Inr m'" ..
  with 1 show ?case by (simp add: a)
qed

lemma within_threshold_returns:
  "is_naive a = is_naive b \<Longrightarrow> \<exists>r. within_threshold m a b = Inr r"
  by (cases a; cases b) auto

lemma walk_returns:
  "uniform_kind (map created_at (first # others @ ps)) \<Longrightarrow> \<exists>out. walk m u first others ps = Inr out"
proof (induction ps arbitrary: first others)
  case Nil
  then show ?case by simp
next
  case (Cons p ps)
  have "is_naive (created_at p) = is_naive (created_at (last (first # others)))"
  proof -
    have "last (first # others) \<in> set (first # others)" by (rule last_in_set) simp
    with Cons.prems show ?thesis
      unfolding uniform_kind_def list_all_iff by auto
  qed
  from within_threshold_returns [OF this] obtain r where
    r: "within_threshold m (created_at p) (created_at (last (first # others))) = Inr r" ..
  show ?case
  proof (cases r)
    case True
    have "uniform_kind (map created_at (first # (others @ [p]) @ ps))"
      using Cons.prems by simp
    from Cons.IH [OF this] r True show ?thesis by simp
  next
    case False
    have "uniform_kind (map created_at (p # [] @ ps))"
      by (rule uniform_kind_subset [OF Cons.prems]) auto
    from Cons.IH [OF this] r False show ?thesis by auto
  qed
qed

lemma author_items_returns:
  "uniform_kind (map created_at ps) \<Longrightarrow> \<exists>out. author_items m u ps = Inr out"
proof (cases ps)
  case Nil
  then show ?thesis by simp
next
  case (Cons p qs)
  assume u: "uniform_kind (map created_at ps)"
  show ?thesis
  proof (cases qs)
    case Nil
    with Cons show ?thesis by simp
  next
    case (Cons q rs)
    have "uniform_kind (map created_at (p # [] @ qs))" using u \<open>ps = p # qs\<close> by simp
    from walk_returns [OF this] show ?thesis using \<open>ps = p # qs\<close> Cons by (simp del: walk.simps)
  qed
qed

lemma collect_returns:
  "uniform_kind (map created_at (concat (map snd m))) \<Longrightarrow> \<exists>out. collect th m = Inr out"
proof (induction m)
  case Nil
  then show ?case by simp
next
  case (Cons a m)
  obtain u ps where a: "a = (u, ps)" by (cases a)
  have "uniform_kind (map created_at ps)"
    by (rule uniform_kind_subset [OF Cons.prems]) (auto simp: a)
  from author_items_returns [OF this] obtain xs where 1: "author_items th u ps = Inr xs" ..
  have "uniform_kind (map created_at (concat (map snd m)))"
    by (rule uniform_kind_subset [OF Cons.prems]) (auto simp: a)
  from Cons.IH [OF this] obtain ys where "collect th m = Inr ys" ..
  with 1 show ?case by (simp add: a)
qed

lemma item_start_hd: "item_posts it \<noteq> [] \<Longrightarrow> item_start it = created_at (hd (item_posts it))"
  by (cases it rule: item_start.cases) simp_all

lemma finalize_tag:
  "fst (finalize u first others) = item_start (snd (finalize u first others))"
  by (simp add: finalize_def)

lemma walk_tags:
  "walk m u first others ps = Inr out \<Longrightarrow>
   \<forall>x\<in>set out. fst x = item_start (snd x) \<and> item_posts (snd x) \<noteq> []"
proof (induction ps arbitrary: first others out)
  case Nil
  then show ?case by (auto simp: finalize_tag finalize_posts)
next
  case (Cons p ps)
  show ?case
  proof (cases "within_threshold m (created_at p) (created_at (last (first # others)))")
    case (Inl e)
    with Cons.prems show ?thesis by simp
  next
    case (Inr b)
    show ?thesis
    proof (cases b)
      case True
      with Inr Cons.prems have "walk m u first (others @ [p]) ps = Inr out" by simp
      from Cons.IH [OF this] show ?thesis .
    next
      case False
      with Inr Cons.prems obtain out' where
        w: "walk m u p [] ps = Inr out'" and o: "out = finalize u first others # out'"
        by (auto split: sum.splits)
      from Cons.IH [OF w] show ?thesis by (simp add: o finalize_tag finalize_posts)
    qed
  qed
qed

lemma author_items_tags:
  "author_items m u ps = Inr out \<Longrightarrow>
   \<forall>x\<in>set out. fst x = item_start (snd x) \<and> item_posts (snd x) \<noteq> []"
proof (cases ps)
  case Nil
  then show "author_items m u ps = Inr out \<Longrightarrow> ?thesis" by auto
next
  case (Cons p qs)
  then show "author_items m u ps = Inr out \<Longrightarrow> ?thesis"
  proof (cases qs)
    case Nil
    assume "author_items m u ps = Inr out"
    with \<open>ps = p # qs\<close> Nil show ?thesis by auto
  next
    case (Cons q rs)
    assume "author_items m u ps = Inr out"
    with \<open>ps = p # qs\<close> Cons have "walk m u p [] (q # rs) = Inr out" by (simp del: walk.simps)
    from walk_tags [OF this] show ?thesis .
  qed
qed

lemma collect_tags:
  "collect m by_author = Inr out \<Longrightarrow>
   \<forall>x\<in>set out. fst x = item_start (snd x) \<and> item_posts (snd x) \<noteq> []"
proof (induction by_author arbitrary: out)
  case Nil
  then show ?case by simp
next
  case (Cons a rest)
  obtain u ps where a: "a = (u, ps)" by (cases a)
  from Cons.prems a obtain xs ys where
    1: "author_items m u ps = Inr xs" and 2: "collect m rest = Inr ys" and 3: "out = xs @ ys"
    by (auto split: sum.splits)
  show ?case using Cons.IH [OF 2] author_items_tags [OF 1] by (auto simp: 3)
qed

lemma collect_tag_sources:
  assumes "collect m by_author = Inr out" and "x \<in> set out"
  shows "fst x \<in> created_at ` set (concat (map snd by_author))"
proof -
  from collect_tags [OF assms(1)] assms(2)
  have t: "fst x = item_start (snd x)" and n: "item_posts (snd x) \<noteq> []" by auto
  have "set (item_posts (snd x)) \<subseteq> set (concat (map (\<lambda>x. item_posts (snd x)) out))"
    using assms(2) by auto
  then have "set (item_posts (snd x)) \<subseteq> set (concat (map snd by_author))"
    by (simp only: collect_posts [OF assms(1)])
  moreover have "hd (item_posts (snd x)) \<in> set (item_posts (snd x))" using n by simp
  ultimately have "hd (item_posts (snd x)) \<in> set (concat (map snd by_author))" by blast
  then show ?thesis unfolding t item_start_hd [OF n] by (rule imageI)
qed

lemma set_of_mset_eq: "mset xs = mset ys \<Longrightarrow> set xs = set ys"
  by (rule mset_eq_setD)

lemma detect_threads_returns:
  assumes "uniform_kind (map created_at posts)"
  shows "\<exists>out. detect_threads posts m = Inr out"
proof (cases "posts = []")
  case True
  then show ?thesis by (simp add: detect_threads_def)
next
  case False
  have g: "set (concat (map snd (group_by_author posts))) = set posts"
    by (rule set_of_mset_eq) (rule group_by_author_mset)
  have "uniform_kind (map created_at (concat (map snd (group_by_author posts))))"
    by (rule uniform_kind_subset [OF assms]) (simp only: set_map g subset_refl)
  from sort_each_returns [OF this] obtain by_author where
    s: "sort_each (group_by_author posts) = Inr by_author" ..
  have b: "set (concat (map snd by_author)) = set posts"
    using set_of_mset_eq [OF sort_each_mset [OF s]] g by simp
  have "uniform_kind (map created_at (concat (map snd by_author)))"
    by (rule uniform_kind_subset [OF assms]) (simp only: set_map b subset_refl)
  from collect_returns [OF this] obtain result_items where
    c: "collect m by_author = Inr result_items" ..
  have "set (map fst result_items) \<subseteq> set (map created_at posts)"
    using collect_tag_sources [OF c] b by auto
  with assms have "uniform_kind (map fst result_items)" by (rule uniform_kind_subset)
  from sort_descending_returns [OF this] s c False show ?thesis
    by (simp add: detect_threads_def)
qed

lemma detect_threads_sorted:
  assumes "detect_threads posts m = Inr out"
  shows "sorted (map (\<lambda>it. - start_reading it) out)"
proof (cases "posts = []")
  case True
  with assms show ?thesis by (simp add: detect_threads_def)
next
  case False
  with assms obtain by_author result_items sorted_items where
    s: "sort_each (group_by_author posts) = Inr by_author" and
    c: "collect m by_author = Inr result_items" and
    d: "sort_descending fst result_items = Inr sorted_items" and
    o: "out = map snd sorted_items"
    by (rule detect_threads_InrE)
  from d have e: "sorted_items = sort_key (\<lambda>x. - reading (time_key (fst x))) result_items"
    by (auto simp: sort_descending_def split: if_splits)
  have "\<forall>x\<in>set sorted_items. fst x = item_start (snd x)"
    using collect_tags [OF c] by (simp add: e)
  then have "map (\<lambda>it. - start_reading it) out = map (\<lambda>x. - reading (time_key (fst x))) sorted_items"
    by (simp add: o start_reading_def)
  also have "sorted \<dots>" unfolding e by (rule sorted_sort_key)
  finally show ?thesis .
qed

subsection \<open>The partition by author\<close>

lemma append_to_keys:
  "map fst (append_to k v m) = (if k \<in> fst ` set m then map fst m else map fst m @ [k])"
  by (induction k v m rule: append_to.induct) auto

lemma append_to_distinct:
  "distinct (map fst m) \<Longrightarrow> distinct (map fst (append_to k v m))"
  by (simp add: append_to_keys)

lemma append_to_map_of:
  "map_of (append_to k v m) =
   (map_of m)(k \<mapsto> (case map_of m k of None \<Rightarrow> [v] | Some vs \<Rightarrow> vs @ [v]))"
  by (induction k v m rule: append_to.induct) (auto simp: fun_eq_iff)

lemma fold_append_to_distinct:
  "distinct (map fst m0) \<Longrightarrow> distinct (map fst (fold (\<lambda>x. append_to (k x) (v x)) xs m0))"
  by (induction xs arbitrary: m0) (simp_all add: append_to_distinct)

lemma fold_append_to_map_of:
  "map_of (fold (\<lambda>x. append_to (k x) (v x)) xs m0) key =
   (case map_of m0 key of
      None \<Rightarrow> (if filter (\<lambda>x. k x = key) xs = [] then None
               else Some (map v (filter (\<lambda>x. k x = key) xs)))
    | Some old \<Rightarrow> Some (old @ map v (filter (\<lambda>x. k x = key) xs)))"
proof (induction xs arbitrary: m0)
  case Nil
  then show ?case by (simp split: option.splits)
next
  case (Cons x xs)
  show ?case
    by (simp add: Cons.IH append_to_map_of split: option.splits)
qed

lemma group_by_author_distinct: "distinct (map fst (group_by_author posts))"
  unfolding group_by_author_def
  using fold_append_to_distinct [of "[]" "\<lambda>p. get_or [] (username p)" "\<lambda>p. p" posts] by simp

lemma group_by_author_member:
  assumes "(u, ps) \<in> set (group_by_author posts)"
  shows "ps = filter (\<lambda>p. author p = u) posts \<and> ps \<noteq> []"
proof -
  have "map_of (group_by_author posts) u = Some ps"
    using assms group_by_author_distinct by simp
  moreover have "map_of (group_by_author posts) u =
    (if filter (\<lambda>p. author p = u) posts = [] then None
     else Some (filter (\<lambda>p. author p = u) posts))"
    unfolding group_by_author_def author_def
    using fold_append_to_map_of [of "\<lambda>p. get_or [] (username p)" "\<lambda>p. p" posts "[]" u]
    by simp
  ultimately show ?thesis by (auto split: if_splits)
qed

lemma sort_each_member:
  "sort_each m = Inr m' \<Longrightarrow> (u, ps') \<in> set m' \<Longrightarrow>
   \<exists>ps. (u, ps) \<in> set m \<and> sort_ascending created_at ps = Inr ps'"
proof (induction m arbitrary: m')
  case Nil
  then show ?case by simp
next
  case (Cons a m)
  obtain v qs where a: "a = (v, qs)" by (cases a)
  from Cons.prems(1) a obtain qs' m2 where
    1: "sort_ascending created_at qs = Inr qs'" and 2: "sort_each m = Inr m2" and 3: "m' = (v, qs') # m2"
    by (auto split: sum.splits)
  show ?case
  proof (cases "(u, ps') = (v, qs')")
    case True
    with 1 a show ?thesis by auto
  next
    case False
    with Cons.prems(2) 3 have "(u, ps') \<in> set m2" by auto
    from Cons.IH [OF 2 this] show ?thesis by auto
  qed
qed

lemma sort_ascending_sorted:
  "sort_ascending dt xs = Inr ys \<Longrightarrow> sorted (map (\<lambda>x. reading (time_key (dt x))) ys)"
  by (auto simp: sort_ascending_def split: if_splits)

text \<open>Every entry of the sorted partition: the author's posts, in ascending order of time.\<close>

lemma by_author_member:
  assumes "sort_each (group_by_author posts) = Inr by_author" and "(u, ps) \<in> set by_author"
  shows "mset ps = mset (filter (\<lambda>p. author p = u) posts) \<and> ps \<noteq> [] \<and>
         sorted (map (\<lambda>p. reading (time_key (created_at p))) ps)"
proof -
  from sort_each_member [OF assms] obtain qs where
    a: "(u, qs) \<in> set (group_by_author posts)" and s: "sort_ascending created_at qs = Inr ps"
    by auto
  from group_by_author_member [OF a] have q: "qs = filter (\<lambda>p. author p = u) posts" "qs \<noteq> []"
    by auto
  have "mset ps = mset qs" by (rule sort_ascending_mset [OF s])
  moreover from this q(2) have "ps \<noteq> []" by auto
  ultimately show ?thesis using q(1) sort_ascending_sorted [OF s] by simp
qed

subsection \<open>Runs\<close>

lemma finalize_well_formed: "well_formed_item u (snd (finalize u first others))"
  by (simp add: finalize_def)

lemma within_threshold_False_not_joins:
  "within_threshold m (created_at p) (created_at prev) = Inr False \<Longrightarrow> \<not> joins m prev p"
  by (simp add: joins_def)

lemma walk_runs:
  "walk m u first others ps = Inr out \<Longrightarrow> successively (joins m) (first # others) \<Longrightarrow>
   (\<forall>x\<in>set out. well_formed_item u (snd x) \<and> successively (joins m) (item_posts (snd x))) \<and>
   successively (\<lambda>a b. \<not> joins m (last (item_posts (snd a))) (hd (item_posts (snd b)))) out \<and>
   out \<noteq> [] \<and> hd (item_posts (snd (hd out))) = first"
proof (induction ps arbitrary: first others out)
  case Nil
  then have "out = [finalize u first others]" by simp
  with Nil.prems(2) show ?case by (simp add: finalize_posts finalize_well_formed)
next
  case (Cons p ps)
  show ?case
  proof (cases "within_threshold m (created_at p) (created_at (last (first # others)))")
    case (Inl e)
    with Cons.prems show ?thesis by simp
  next
    case (Inr b)
    show ?thesis
    proof (cases b)
      case True
      with Inr Cons.prems have w: "walk m u first (others @ [p]) ps = Inr out" by simp
      from Inr True have "joins m (last (first # others)) p" by (simp add: joins_def)
      with Cons.prems(2) have "successively (joins m) ((first # others) @ [p])"
        by (simp only: successively_append_iff) simp
      then have "successively (joins m) (first # others @ [p])" by simp
      from Cons.IH [OF w this] show ?thesis .
    next
      case False
      with Inr Cons.prems obtain out' where
        w: "walk m u p [] ps = Inr out'" and o: "out = finalize u first others # out'"
        by (auto split: sum.splits)
      have s: "successively (joins m) (p # [])" by simp
      from Inr False have n: "\<not> joins m (last (first # others)) p"
        by (simp add: within_threshold_False_not_joins)
      from Cons.IH [OF w s] n Cons.prems(2) show ?thesis
        by (simp add: o finalize_posts finalize_well_formed successively_Cons)
    qed
  qed
qed

lemma author_items_runs:
  assumes "author_items m u ps = Inr out"
  shows "maximal_runs m u ps (map snd out)"
proof -
  have c: "concat (map item_posts (map snd out)) = ps"
    using author_items_posts [OF assms] by (simp add: comp_def)
  have n: "\<forall>x\<in>set out. item_posts (snd x) \<noteq> []"
    using author_items_tags [OF assms] by simp
  have "(\<forall>x\<in>set out. well_formed_item u (snd x) \<and> successively (joins m) (item_posts (snd x))) \<and>
    successively (\<lambda>a b. \<not> joins m (last (item_posts (snd a))) (hd (item_posts (snd b)))) out"
  proof (cases ps)
    case Nil
    with assms show ?thesis by auto
  next
    case (Cons p qs)
    show ?thesis
    proof (cases qs)
      case Nil
      with assms \<open>ps = p # qs\<close> show ?thesis by auto
    next
      case (Cons q rs)
      with assms \<open>ps = p # qs\<close> have "walk m u p [] (q # rs) = Inr out" by (simp del: walk.simps)
      from walk_runs [OF this] show ?thesis by simp
    qed
  qed
  with c n show ?thesis
    unfolding maximal_runs_def by (simp add: successively_map)
qed

lemma collect_runs:
  "collect m by_author = Inr out \<Longrightarrow>
   \<exists>runs. list_all2 (\<lambda>(u, ps) r. maximal_runs m u ps r) by_author runs \<and>
          map snd out = concat runs"
proof (induction by_author arbitrary: out)
  case Nil
  then show ?case by simp
next
  case (Cons a rest)
  obtain u ps where a: "a = (u, ps)" by (cases a)
  from Cons.prems a obtain xs ys where
    1: "author_items m u ps = Inr xs" and 2: "collect m rest = Inr ys" and 3: "out = xs @ ys"
    by (auto split: sum.splits)
  from Cons.IH [OF 2] obtain runs where
    r: "list_all2 (\<lambda>(u, ps) r. maximal_runs m u ps r) rest runs" "map snd ys = concat runs"
    by blast
  have "list_all2 (\<lambda>(u, ps) r. maximal_runs m u ps r) (a # rest) (map snd xs # runs)"
    using r(1) author_items_runs [OF 1] by (simp add: a)
  moreover have "map snd out = concat (map snd xs # runs)" by (simp add: 3 r(2))
  ultimately show ?case by blast
qed



lemma by_author_set:
  assumes "sort_each (group_by_author posts) = Inr by_author"
  shows "set (concat (map snd by_author)) = set posts"
proof -
  have "mset (concat (map snd by_author)) = mset posts"
    by (simp add: sort_each_mset [OF assms] group_by_author_mset)
  then show ?thesis by (rule mset_eq_setD)
qed

lemma sorted_piece:
  "sorted (map f (concat xss)) \<Longrightarrow> xs \<in> set xss \<Longrightarrow> sorted (map f xs)"
  by (induction xss) (auto simp: sorted_append)

lemma detect_threads_items:
  assumes "detect_threads posts m = Inr out" and "it \<in> set out"
  shows "item_posts it \<noteq> [] \<and> item_start it = created_at (hd (item_posts it)) \<and>
         sorted (map (\<lambda>p. reading (time_key (created_at p))) (item_posts it)) \<and>
         successively (joins m) (item_posts it) \<and>
         well_formed_item (author (hd (item_posts it))) it"
proof (cases "posts = []")
  case True
  with assms show ?thesis by (simp add: detect_threads_def)
next
  case False
  with assms(1) obtain by_author result_items sorted_items where
    s: "sort_each (group_by_author posts) = Inr by_author" and
    c: "collect m by_author = Inr result_items" and
    d: "sort_descending fst result_items = Inr sorted_items" and
    o: "out = map snd sorted_items"
    by (rule detect_threads_InrE)
  have "set sorted_items = set result_items"
    by (rule mset_eq_setD) (rule sort_descending_mset [OF d])
  with assms(2) o have i: "it \<in> set (map snd result_items)" by auto
  from collect_runs [OF c] obtain runs where
    r: "list_all2 (\<lambda>(u, ps) r. maximal_runs m u ps r) by_author runs" and
    e: "map snd result_items = concat runs" by blast
  from i e obtain r0 where "r0 \<in> set runs" "it \<in> set r0" by auto
  then obtain k where k: "k < length runs" "it \<in> set (runs ! k)"
    by (metis in_set_conv_nth)
  obtain u ps where b: "by_author ! k = (u, ps)" by (cases "by_author ! k")
  have len: "length by_author = length runs" using r by (rule list_all2_lengthD)
  from list_all2_nthD2 [OF r k(1)] b have mr: "maximal_runs m u ps (runs ! k)" by simp
  have "(u, ps) \<in> set by_author" using b k(1) len by (metis nth_mem)
  from by_author_member [OF s this] have
    au: "mset ps = mset (filter (\<lambda>p. author p = u) posts)" and
    so: "sorted (map (\<lambda>p. reading (time_key (created_at p))) ps)" by auto
  from mr k(2) have
    cc: "concat (map item_posts (runs ! k)) = ps" and
    ne: "item_posts it \<noteq> []" and wf: "well_formed_item u it" and
    su: "successively (joins m) (item_posts it)"
    unfolding maximal_runs_def by auto
  have "item_posts it \<in> set (map item_posts (runs ! k))" using k(2) by simp
  with so cc have "sorted (map (\<lambda>p. reading (time_key (created_at p))) (item_posts it))"
    by (metis sorted_piece)
  moreover have "author (hd (item_posts it)) = u"
  proof -
    have "hd (item_posts it) \<in> set (item_posts it)" using ne by simp
    also have "\<dots> \<subseteq> set ps" using k(2) cc by auto
    also have "\<dots> = set (filter (\<lambda>p. author p = u) posts)" using au by (rule mset_eq_setD)
    finally show ?thesis by simp
  qed
  ultimately show ?thesis using ne wf su by (simp add: item_start_hd)
qed

lemma detect_threads_sentinel_last:
  assumes d: "detect_threads posts m = Inr out"
    and ij: "i < j" "j < length out"
    and u: "item_start (out ! i) = Unparseable"
  shows "item_start (out ! j) = Unparseable \<or> (\<exists>t. item_start (out ! j) = Aware t \<and> t \<le> 0)"
proof -
  from ij d have ne: "posts \<noteq> []" by (auto simp: detect_threads_def)
  with d obtain by_author result_items sorted_items where
    s: "sort_each (group_by_author posts) = Inr by_author" and
    c: "collect m by_author = Inr result_items" and
    sd: "sort_descending fst result_items = Inr sorted_items" and
    o: "out = map snd sorted_items"
    by (rule detect_threads_InrE)
  from sd have cmp: "comparable (map (\<lambda>x. time_key (fst x)) result_items)"
    and e: "sorted_items = sort_key (\<lambda>x. - reading (time_key (fst x))) result_items"
    by (auto simp: sort_descending_def split: if_splits)
  have len: "length result_items = length out" by (simp add: o e)
  have mem: "\<And>k. k < length out \<Longrightarrow> sorted_items ! k \<in> set result_items"
    using e o by (metis length_map nth_mem set_sort)
  have tag: "\<And>k. k < length out \<Longrightarrow> fst (sorted_items ! k) = item_start (out ! k)"
    using collect_tags [OF c] mem o by simp
  have "2 \<le> length result_items" using ij len by simp
  with cmp have uni: "list_all (\<lambda>x. is_naive (fst x)) result_items \<or>
    list_all (\<lambda>x. \<not> is_naive (fst x)) result_items"
    by (auto simp: comparable_def list_all_iff)
  have i: "i < length out" using ij by simp
  from mem [OF i] tag [OF i] u have "\<exists>x\<in>set result_items. \<not> is_naive (fst x)" by force
  with uni have "list_all (\<lambda>x. \<not> is_naive (fst x)) result_items"
    by (auto simp: list_all_iff)
  with mem [OF ij(2)] tag [OF ij(2)] have nn: "\<not> is_naive (item_start (out ! j))"
    by (auto simp: list_all_iff)
  have "sorted (map (\<lambda>it. - start_reading it) out)" by (rule detect_threads_sorted [OF d])
  then have "- start_reading (out ! i) \<le> - start_reading (out ! j)"
    using ij by (simp add: sorted_iff_nth_mono)
  then have le: "start_reading (out ! j) \<le> 0"
    using u by (simp add: start_reading_def time_key_def datetime_min_utc_def)
  show ?thesis
  proof (cases "item_start (out ! j)")
    case Unparseable
    then show ?thesis by simp
  next
    case (Naive t)
    with nn show ?thesis by simp
  next
    case (Aware t)
    moreover from le Aware have "t \<le> 0" by (simp add: start_reading_def time_key_def)
    ultimately show ?thesis by simp
  qed
qed





subsection \<open>Statements about the detector\<close>

lemmas detect_eval =
  detect_threads_def group_by_author_def sort_ascending_def sort_descending_def comparable_def
  time_key_def datetime_min_utc_def finalize_def get_or_def post_of_def author_def
  five_minutes_def ten_minutes_def ten_minutes_and_a_hundredth_def ten_minutes_and_a_half_def
  midnight_2024_01_15_def half_past_ten_2024_01_15_def year_one_five_hours_east_def
  a_thousand_million_minutes_and_a_microsecond_def time_diff_ten

lemma unparseable_never_joins:
  "created_at p = Unparseable \<or> created_at prev = Unparseable \<Longrightarrow> \<not> joins m prev p"
  by (cases "created_at p"; cases "created_at prev") (auto simp: joins_def)

lemma detect_threads_returns_without_naive:
  "list_all (\<lambda>p. \<not> is_naive (created_at p)) posts \<Longrightarrow> \<exists>out. detect_threads posts m = Inr out"
  by (rule detect_threads_returns) (simp add: uniform_kind_def list_all_iff)

lemma two_posts_ten_minutes_apart_merge:
  "detect_threads [post_of ''alice'' (Aware t), post_of ''alice'' (Aware (t + ten_minutes))] 10 =
   Inr [Thread ''alice'' [post_of ''alice'' (Aware t), post_of ''alice'' (Aware (t + ten_minutes))]]"
  by (simp add: detect_eval)

lemma two_posts_a_hundredth_later_do_not_merge:
  "detect_threads
     [post_of ''alice'' (Aware t), post_of ''alice'' (Aware (t + ten_minutes_and_a_hundredth))] 10 =
   Inr [Single (post_of ''alice'' (Aware (t + ten_minutes_and_a_hundredth))),
        Single (post_of ''alice'' (Aware t))]"
  by (simp add: detect_eval)

lemma two_posts_half_a_minute_later_do_not_merge:
  "detect_threads
     [post_of ''alice'' (Aware t), post_of ''alice'' (Aware (t + ten_minutes_and_a_half))] 10 =
   Inr [Single (post_of ''alice'' (Aware (t + ten_minutes_and_a_half))),
        Single (post_of ''alice'' (Aware t))]"
  by (simp add: detect_eval)




text \<open>
  C6 (as amended). Whenever \<^verbatim>\<open>detect_threads\<close> returns, its output is in descending order
  of the starting timestamps of the items; the starting timestamp of an item is the timestamp
  of its first post, which is the earliest of the item; and an item without a parsed starting
  timestamp is followed only by items without one and by items that start at or before the
  sentinel \<^verbatim>\<open>datetime.min\<close> in UTC, the instant 0: every item that starts after the sentinel
  comes before every item without a parsed starting timestamp.
\<close>

theorem output_sorted_most_recent_first:
  assumes "detect_threads posts m = Inr out"
  shows "sorted_wrt (\<lambda>a b. start_reading b \<le> start_reading a) out \<and>
         (\<forall>it\<in>set out. item_posts it \<noteq> [] \<and> item_start it = created_at (hd (item_posts it)) \<and>
            sorted (map (\<lambda>p. reading (time_key (created_at p))) (item_posts it))) \<and>
         (\<forall>i j. i < j \<and> j < length out \<and> item_start (out ! i) = Unparseable \<longrightarrow>
                item_start (out ! j) = Unparseable \<or>
                (\<exists>t. item_start (out ! j) = Aware t \<and> t \<le> 0))"
proof -
  have "sorted (map (\<lambda>it. - start_reading it) out)" by (rule detect_threads_sorted [OF assms])
  then have 1: "sorted_wrt (\<lambda>a b. start_reading b \<le> start_reading a) out"
    by (simp add: sorted_map)
  have 2: "\<forall>it\<in>set out. item_posts it \<noteq> [] \<and> item_start it = created_at (hd (item_posts it)) \<and>
            sorted (map (\<lambda>p. reading (time_key (created_at p))) (item_posts it))"
    using detect_threads_items [OF assms] by blast
  have 3: "\<forall>i j. i < j \<and> j < length out \<and> item_start (out ! i) = Unparseable \<longrightarrow>
                item_start (out ! j) = Unparseable \<or>
                (\<exists>t. item_start (out ! j) = Aware t \<and> t \<le> 0)"
    using detect_threads_sentinel_last [OF assms] by blast
  from 1 2 3 show ?thesis by blast
qed

theorem output_sorted_most_recent_first_witness:
  "detect_threads
     [post_of ''alice'' (Aware (midnight_2024_01_15 + five_minutes)), post_of ''bob'' Unparseable,
      post_of ''carol'' (Aware half_past_ten_2024_01_15),
      post_of ''alice'' (Aware midnight_2024_01_15)] 10 =
   Inr [Single (post_of ''carol'' (Aware half_past_ten_2024_01_15)),
        Thread ''alice'' [post_of ''alice'' (Aware midnight_2024_01_15),
                          post_of ''alice'' (Aware (midnight_2024_01_15 + five_minutes))],
        Single (post_of ''bob'' Unparseable)] \<and>
   sorted_wrt (\<lambda>a b. start_reading b \<le> start_reading a)
     [Single (post_of ''carol'' (Aware half_past_ten_2024_01_15)),
      Thread ''alice'' [post_of ''alice'' (Aware midnight_2024_01_15),
                        post_of ''alice'' (Aware (midnight_2024_01_15 + five_minutes))],
      Single (post_of ''bob'' Unparseable)]"
proof -
  have h: "detect_threads
     [post_of ''alice'' (Aware (midnight_2024_01_15 + five_minutes)), post_of ''bob'' Unparseable,
      post_of ''carol'' (Aware half_past_ten_2024_01_15),
      post_of ''alice'' (Aware midnight_2024_01_15)] 10 =
   Inr [Single (post_of ''carol'' (Aware half_past_ten_2024_01_15)),
        Thread ''alice'' [post_of ''alice'' (Aware midnight_2024_01_15),
                          post_of ''alice'' (Aware (midnight_2024_01_15 + five_minutes))],
        Single (post_of ''bob'' Unparseable)]"
    by (simp add: detect_eval)
  from output_sorted_most_recent_first [OF h] h show ?thesis by blast
qed

text \<open>
  The claim C6 as stated fails when a parsed timestamp lies before the sentinel: the post
  dated \<^verbatim>\<open>0001-01-01T00:00:00+05:00\<close> is five hours older than \<^verbatim>\<open>datetime.min\<close> in UTC, and the
  post without timestamp comes first.
\<close>

theorem undated_post_before_a_dated_post:
  "detect_threads
     [post_of ''alice'' (Aware year_one_five_hours_east), post_of ''bob'' Unparseable] 10 =
   Inr [Single (post_of ''bob'' Unparseable),
        Single (post_of ''alice'' (Aware year_one_five_hours_east))]"
  by (simp add: detect_eval)

text \<open>
  C7. The claim that \<^verbatim>\<open>detect_threads\<close> never raises fails: a post dated by a date alone
  (\<^verbatim>\<open>'2024-01-15'\<close>, which \<^verbatim>\<open>fromisoformat\<close> parses to a naive datetime) together with a post
  without timestamp makes the final sort compare a naive datetime with the aware sentinel.
\<close>

theorem date_only_and_missing_timestamp_raise:
  "detect_threads
     [post_of ''alice'' (Naive midnight_2024_01_15), post_of ''bob'' Unparseable] 10 =
   Inl TypeError"
  by (simp add: detect_eval)

text \<open>
  C9. The claim that every input has an output holding each post once fails at the same
  defect: here the sort of one author's posts raises, and no post is returned.
\<close>

theorem posts_of_one_author_lost_by_raise:
  "detect_threads
     [post_of ''alice'' (Naive midnight_2024_01_15),
      post_of ''alice'' (Aware half_past_ten_2024_01_15)] 10 =
   Inl TypeError"
  by (simp add: detect_eval)

section \<open>Properties of the extractor\<close>

subsection \<open>The matchers\<close>

lemma starts_with_iff: "starts_with s p \<longleftrightarrow> (\<exists>r. s = p @ r)"
  by (induction s p rule: starts_with.induct) auto

lemma contains_iff: "contains s p \<longleftrightarrow> occurs_in s p"
proof (induction s)
  case Nil
  then show ?case by (auto simp: occurs_in_def)
next
  case (Cons c cs)
  show ?case
  proof
    assume "contains (c # cs) p"
    then consider "starts_with (c # cs) p" | "contains cs p" by auto
    then show "occurs_in (c # cs) p"
    proof cases
      case 1
      then obtain r where "c # cs = [] @ p @ r" by (auto simp: starts_with_iff)
      then show ?thesis unfolding occurs_in_def by blast
    next
      case 2
      with Cons obtain a b where "cs = a @ p @ b" by (auto simp: occurs_in_def)
      then have "c # cs = (c # a) @ p @ b" by simp
      then show ?thesis unfolding occurs_in_def by blast
    qed
  next
    assume "occurs_in (c # cs) p"
    then obtain a b where ab: "c # cs = a @ p @ b" by (auto simp: occurs_in_def)
    show "contains (c # cs) p"
    proof (cases a)
      case Nil
      with ab have "starts_with (c # cs) p" by (auto simp: starts_with_iff)
      then show ?thesis by simp
    next
      case (Cons d ds)
      with ab have "cs = ds @ p @ b" by simp
      then have "occurs_in cs p" unfolding occurs_in_def by blast
      with Cons.IH show ?thesis by simp
    qed
  qed
qed

lemma matches_word_here_iff:
  "matches_word_here prev s p \<longleftrightarrow>
   (\<exists>b. s = p @ b \<and> word_boundary prev (first_char (p @ b)) \<and>
        word_boundary (last_char_after prev p) (first_char b))"
  unfolding matches_word_here_def starts_with_iff last_char_after_def by auto

lemma search_word_iff:
  "search_word prev s p \<longleftrightarrow>
   (\<exists>a b. s = a @ p @ b \<and>
          word_boundary (last_char_after prev a) (first_char (p @ b)) \<and>
          word_boundary (last_char_after prev (a @ p)) (first_char b))"
proof (induction s arbitrary: prev)
  case Nil
  show ?case by (auto simp: matches_word_here_iff last_char_after_def)
next
  case (Cons c cs)
  show ?case
  proof
    assume "search_word prev (c # cs) p"
    then consider "matches_word_here prev (c # cs) p" | "search_word (Some c) cs p" by auto
    then show "\<exists>a b. c # cs = a @ p @ b \<and>
          word_boundary (last_char_after prev a) (first_char (p @ b)) \<and>
          word_boundary (last_char_after prev (a @ p)) (first_char b)"
    proof cases
      case 1
      then obtain b where "c # cs = [] @ p @ b"
        "word_boundary (last_char_after prev []) (first_char (p @ b))"
        "word_boundary (last_char_after prev ([] @ p)) (first_char b)"
        by (auto simp: matches_word_here_iff last_char_after_def)
      then show ?thesis by blast
    next
      case 2
      with Cons.IH [of "Some c"] obtain a b where ab: "cs = a @ p @ b"
        "word_boundary (last_char_after (Some c) a) (first_char (p @ b))"
        "word_boundary (last_char_after (Some c) (a @ p)) (first_char b)" by blast
      have "c # cs = (c # a) @ p @ b" using ab(1) by simp
      moreover have "last_char_after prev (c # a) = last_char_after (Some c) a"
        by (simp add: last_char_after_def)
      moreover have "last_char_after prev ((c # a) @ p) = last_char_after (Some c) (a @ p)"
        by (simp add: last_char_after_def)
      ultimately show ?thesis using ab(2,3) by metis
    qed
  next
    assume "\<exists>a b. c # cs = a @ p @ b \<and>
          word_boundary (last_char_after prev a) (first_char (p @ b)) \<and>
          word_boundary (last_char_after prev (a @ p)) (first_char b)"
    then obtain a b where ab: "c # cs = a @ p @ b"
          "word_boundary (last_char_after prev a) (first_char (p @ b))"
          "word_boundary (last_char_after prev (a @ p)) (first_char b)" by blast
    show "search_word prev (c # cs) p"
    proof (cases a)
      case Nil
      with ab have "matches_word_here prev (c # cs) p"
        unfolding matches_word_here_iff by (auto simp: last_char_after_def)
      then show ?thesis by simp
    next
      case (Cons d ds)
      with ab(1) have e: "cs = ds @ p @ b" and dc: "d = c" by simp_all
      have "last_char_after prev a = last_char_after (Some c) ds"
        using Cons dc by (simp add: last_char_after_def)
      moreover have "last_char_after prev (a @ p) = last_char_after (Some c) (ds @ p)"
        using Cons dc by (simp add: last_char_after_def)
      ultimately have "search_word (Some c) cs p"
        using ab(2,3) e Cons.IH [of "Some c"] by auto
      then show ?thesis by simp
    qed
  qed
qed

lemma search_word_None_iff: "search_word None s p \<longleftrightarrow> occurs_as_word s p"
  unfolding search_word_iff occurs_as_word_def last_char_after_def last_char_def by simp

lemma pattern_found_iff:
  "pattern_found s p \<longleftrightarrow> (if length p \<le> 3 then occurs_as_word s p else occurs_in s p)"
  by (simp add: pattern_found_def search_word_None_iff contains_iff)

lemma occurs_as_word_between_non_word_characters:
  assumes "p \<noteq> []" and "is_word (hd p)" and "is_word (last p)"
  shows "occurs_as_word s p \<longleftrightarrow>
         (\<exists>a b. s = a @ p @ b \<and> (a = [] \<or> \<not> is_word (last a)) \<and> (b = [] \<or> \<not> is_word (hd b)))"
proof -
  have "word_boundary (last_char a) (first_char (p @ b)) \<longleftrightarrow> (a = [] \<or> \<not> is_word (last a))"
    for a b
    using assms(1,2) by (cases p) (auto simp: word_boundary_def last_char_def first_char_def)
  moreover have "word_boundary (last_char (a @ p)) (first_char b) \<longleftrightarrow> (b = [] \<or> \<not> is_word (hd b))"
    for a b
    using assms(1,3) by (cases b) (auto simp: word_boundary_def last_char_def first_char_def)
  ultimately show ?thesis unfolding occurs_as_word_def by simp
qed

subsection \<open>The extracted labels\<close>

lemma fold_insert_set:
  "set (fold (\<lambda>x acc. if P x then List.insert (f x) acc else acc) xs acc0) =
   set acc0 \<union> {f x |x. x \<in> set xs \<and> P x}"
  by (induction xs arbitrary: acc0) auto

lemma fold_insert_distinct:
  "distinct acc0 \<Longrightarrow> distinct (fold (\<lambda>x acc. if P x then List.insert (f x) acc else acc) xs acc0)"
  by (induction xs arbitrary: acc0) auto

lemma known_found_as_fold:
  "known_found s =
   fold (\<lambda>x acc. if pattern_found s (fst x) then List.insert (snd x) acc else acc) KNOWN_ENTITIES []"
  unfolding known_found_def by (simp add: case_prod_unfold)

lemma known_found_iff:
  "e \<in> set (known_found s) \<longleftrightarrow> (\<exists>p. (p, e) \<in> set KNOWN_ENTITIES \<and> pattern_found s p)"
  unfolding known_found_as_fold fold_insert_set by force

lemma known_found_distinct: "distinct (known_found s)"
  unfolding known_found_as_fold by (rule fold_insert_distinct) simp

lemma extract_entities_iff:
  "e \<in> set (extract_entities txt) \<longleftrightarrow>
   txt \<noteq> [] \<and> ((\<exists>p. (p, e) \<in> set KNOWN_ENTITIES \<and> pattern_found (lower txt) p) \<or>
               (e \<in> set (findall_nouns None txt) \<and> is_proper_noun e))"
  unfolding extract_entities_def
  using fold_insert_set [of is_proper_noun "\<lambda>n. n" "findall_nouns None txt" "known_found (lower txt)"]
  by (auto simp: known_found_iff)

lemma extract_entities_distinct: "distinct (extract_entities txt)"
  unfolding extract_entities_def
  using fold_insert_distinct [OF known_found_distinct, of is_proper_noun "\<lambda>n. n"]
  by simp

lemma extend_prefix:
  "(m, r) \<in> set (extensions w rest) \<Longrightarrow> \<exists>t. m = w @ t"
proof (induction w rest rule: extensions.induct)
  case (1 matched rest)
  show ?case
  proof (cases "if takeWhile is_space rest = [] then None
                else cap_word (dropWhile is_space rest)")
    case None
    with "1.prems" show ?thesis by (simp add: extensions.simps [of matched rest])
  next
    case (Some p)
    obtain w' rest' where p: "p = (w', rest')" by (cases p)
    from "1.prems" Some p have
      "(m, r) = (matched, rest) \<or> (m, r) \<in> set (extensions (matched @ takeWhile is_space rest @ w') rest')"
      by (simp add: extensions.simps [of matched rest])
    then show ?thesis
    proof
      assume "(m, r) = (matched, rest)"
      then show ?thesis by simp
    next
      assume "(m, r) \<in> set (extensions (matched @ takeWhile is_space rest @ w') rest')"
      from "1.IH" [OF Some p [symmetric] this] show ?thesis by auto
    qed
  qed
qed

lemma find_in_set: "find Q zs = Some z \<Longrightarrow> z \<in> set zs"
  by (induction zs) (simp_all split: if_splits)

lemma noun_here_capital:
  assumes "noun_here prev s = Some (m, r)"
  shows "\<exists>c cs. m = c # cs \<and> is_upper c"
proof (cases "cap_word s")
  case None
  with assms show ?thesis by (simp add: noun_here_def split: if_splits)
next
  case (Some p)
  obtain w rest where p: "p = (w, rest)" by (cases p)
  with Some assms have
    "find (\<lambda>(matched, rest'). word_boundary (Some (last matched)) (first_char rest'))
       (rev (extensions w rest)) = Some (m, r)"
    by (simp add: noun_here_def split: if_splits)
  then have "(m, r) \<in> set (rev (extensions w rest))" by (rule find_in_set)
  then have "(m, r) \<in> set (extensions w rest)" by simp
  then obtain t where m: "m = w @ t" using extend_prefix by blast
  from Some p obtain c cs where "w = c # cs" "is_upper c"
    by (cases s) (auto split: if_splits)
  with m show ?thesis by simp
qed

lemma findall_nouns_capital:
  "m \<in> set (findall_nouns prev s) \<Longrightarrow> \<exists>c cs. m = c # cs \<and> is_upper c"
proof (induction prev s rule: findall_nouns.induct)
  case (1 prev)
  then show ?case by simp
next
  case (2 prev c cs)
  show ?case
  proof (cases "noun_here prev (c # cs)")
    case None
    with "2.prems" have "m \<in> set (findall_nouns (Some c) cs)" by simp
    from "2.IH"(1) [OF None this] show ?thesis .
  next
    case (Some p)
    obtain matched rest where p: "p = (matched, rest)" by (cases p)
    with Some "2.prems" have "m = matched \<or> m \<in> set (findall_nouns (Some (last matched)) rest)"
      by simp
    then show ?thesis
    proof
      assume "m = matched"
      with Some p noun_here_capital show ?thesis by blast
    next
      assume "m \<in> set (findall_nouns (Some (last matched)) rest)"
      from "2.IH"(2) [OF Some p [symmetric] this] show ?thesis .
    qed
  qed
qed

lemma upper_before_z: "is_upper c \<Longrightarrow> c < CHR ''z''"
  unfolding is_upper_def ascii_uppercase_def by auto

lemma capital_before_zzz: "is_upper c \<Longrightarrow> c # cs < ''zzz''"
  using upper_before_z [of c] by simp

lemma known_labels: "list_all (\<lambda>(p, e). e \<noteq> [] \<and> e < ''zzz'') KNOWN_ENTITIES"
  by code_simp

lemma extract_entities_labels:
  assumes "e \<in> set (extract_entities txt)"
  shows "e \<noteq> [] \<and> e < ''zzz''"
proof -
  from assms consider p where "(p, e) \<in> set KNOWN_ENTITIES" | "e \<in> set (findall_nouns None txt)"
    unfolding extract_entities_iff by blast
  then show ?thesis
  proof cases
    case 1
    with known_labels show ?thesis unfolding list_all_iff by blast
  next
    case 2
    then obtain c cs where "e = c # cs" "is_upper c" using findall_nouns_capital by blast
    then show ?thesis using capital_before_zzz by simp
  qed
qed

section \<open>Properties of the normaliser\<close>

lemma normalize_item_entities:
  assumes "normalize_item src t = Some n"
  shows "entities n = extract_entities (item_text n)"
  using assms by (auto simp: normalize_item_def Let_def split: if_splits)

lemma normalized_items_well_formed:
  assumes "\<forall>n\<in>set items. \<exists>src t. normalize_item src t = Some n"
  shows "entity_sets items \<and> labels_before_zzz items"
  unfolding entity_sets_def labels_before_zzz_def
  using assms normalize_item_entities extract_entities_distinct extract_entities_labels
  by metis

subsection \<open>Statements about the extractor and the normaliser\<close>

text \<open>
  C3 (as amended). A dictionary form of at most three characters is found exactly when it
  occurs in the lower-cased text between two word boundaries, and a longer form exactly when
  it occurs anywhere; an entity is extracted exactly when one of its forms is found or when it
  is a proper noun of the text. The dictionary has no form \<^verbatim>\<open>ai\<close>: nothing is extracted from
  \<^verbatim>\<open>aircraft\<close>, and nothing from \<^verbatim>\<open>I love AI\<close> either. The short form \<^verbatim>\<open>ibm\<close> is found in
  \<^verbatim>\<open>I love IBM\<close> and not in \<^verbatim>\<open>ibmer\<close>.
\<close>

theorem short_forms_match_at_word_boundaries:
  assumes "ascii txt"
  shows "(e \<in> set (extract_entities txt) \<longleftrightarrow>
            txt \<noteq> [] \<and> ((\<exists>p. (p, e) \<in> set KNOWN_ENTITIES \<and> pattern_found (lower txt) p) \<or>
                        (e \<in> set (findall_nouns None txt) \<and> is_proper_noun e))) \<and>
         (length p \<le> 3 \<longrightarrow> (pattern_found (lower txt) p \<longleftrightarrow> occurs_as_word (lower txt) p)) \<and>
         (3 < length p \<longrightarrow> (pattern_found (lower txt) p \<longleftrightarrow> occurs_in (lower txt) p)) \<and>
         extract_entities ''aircraft'' = [] \<and>
         extract_entities ''I love AI'' = [] \<and>
         ''IBM'' \<in> set (extract_entities ''I love IBM'') \<and>
         ''IBM'' \<notin> set (extract_entities ''ibmer'')"
proof -
  have 1: "extract_entities ''aircraft'' = []" by code_simp
  have 2: "extract_entities ''I love AI'' = []" by code_simp
  have 3: "''IBM'' \<in> set (extract_entities ''I love IBM'')" by code_simp
  have 4: "''IBM'' \<notin> set (extract_entities ''ibmer'')" by code_simp
  from 1 2 3 4 show ?thesis
    by (simp only: extract_entities_iff pattern_found_iff) simp
qed

theorem short_forms_match_at_word_boundaries_witness:
  "ascii ''ibmer or IBM'' \<and>
   pattern_found (lower ''ibmer or IBM'') ''ibm'' \<and>
   occurs_as_word (lower ''ibmer or IBM'') ''ibm'' \<and>
   ''IBM'' \<in> set (extract_entities ''ibmer or IBM'')"
proof -
  have a: "ascii ''ibmer or IBM''" by (simp add: ascii_def)
  have f: "pattern_found (lower ''ibmer or IBM'') ''ibm''" by code_simp
  have k: "(''ibm'', ''IBM'') \<in> set KNOWN_ENTITIES" by code_simp
  from short_forms_match_at_word_boundaries [OF a, of "''IBM''" "''ibm''"] f k
  show ?thesis using a by auto
qed

text \<open>
  The claim C3 as stated fails at \<^verbatim>\<open>I love AI\<close>: no entity is extracted from it, and no key
  of the dictionary is \<^verbatim>\<open>ai\<close>.
\<close>

theorem no_ai_entity_in_I_love_AI:
  "extract_entities ''I love AI'' = [] \<and> ''ai'' \<notin> set (map fst KNOWN_ENTITIES)"
  by code_simp

text \<open>
  C10. \<^verbatim>\<open>normalize_item\<close> with the type \<^verbatim>\<open>x_thread\<close> on a record whose list of posts is
  empty (or missing) returns an item with empty title, empty text, the URL \<^verbatim>\<open>#\<close> and no
  entity.
\<close>

theorem empty_thread_is_normalized:
  assumes "get_or [] (thread_posts item) = []"
  shows "normalize_item item ''x_thread'' =
         Some \<lparr>item_type = ''x_thread'', title = [], item_text = [], item_url = ''#'',
               item_source = ''@'' @ get_or [] (username item), entities = [],
               original = item\<rparr>"
  using assms by (simp add: normalize_item_def truncated_def extract_entities_def)

theorem empty_thread_is_normalized_witness:
  "get_or [] (thread_posts (empty_source\<lparr>username := Some ''alice'', thread_posts := Some []\<rparr>)) = [] \<and>
   normalize_item (empty_source\<lparr>username := Some ''alice'', thread_posts := Some []\<rparr>) ''x_thread'' =
   Some \<lparr>item_type = ''x_thread'', title = [], item_text = [], item_url = ''#'',
         item_source = ''@alice'', entities = [],
         original = empty_source\<lparr>username := Some ''alice'', thread_posts := Some []\<rparr>\<rparr>"
proof -
  have h: "get_or [] (thread_posts (empty_source\<lparr>username := Some ''alice'', thread_posts := Some []\<rparr>)) = []"
    by (simp add: get_or_def)
  from empty_thread_is_normalized [OF h] h show ?thesis
    by (simp add: get_or_def empty_source_def)
qed

section \<open>Properties of the clusterer\<close>

subsection \<open>The inverted index\<close>

lemma fold_concat_map:
  "fold g (concat (map h xs)) m = fold (\<lambda>x. fold g (h x)) xs m"
  by (induction xs arbitrary: m) simp_all

lemma entity_to_items_pairs:
  "entity_to_items items = fold (\<lambda>p. append_to (fst p) (snd p)) (entity_pairs items) []"
proof -
  have "fold (\<lambda>p. append_to (fst p) (snd p)) (entity_pairs items) [] =
        fold (\<lambda>x. fold (\<lambda>p. append_to (fst p) (snd p))
                ((\<lambda>(i, item). map (\<lambda>e. (e, i)) (entities item)) x)) (enumerate 0 items) []"
    unfolding entity_pairs_def by (rule fold_concat_map)
  also have "(\<lambda>x. fold (\<lambda>p. append_to (fst p) (snd p))
                ((\<lambda>(i, item). map (\<lambda>e. (e, i)) (entities item)) x)) =
             (\<lambda>(i, item) m. fold (\<lambda>entity m'. append_to entity i m') (entities item) m)"
    by (auto simp: fun_eq_iff fold_map comp_def)
  finally show ?thesis by (simp add: entity_to_items_def)
qed

lemma indices_of_entity_in_item:
  "distinct es \<Longrightarrow>
   map snd (filter (\<lambda>p. fst p = e) (map (\<lambda>e'. (e', i)) es)) = (if e \<in> set es then [i] else [])"
  by (induction es) auto

lemma entity_pairs_snoc:
  "entity_pairs (items @ [x]) = entity_pairs items @ map (\<lambda>e. (e, length items)) (entities x)"
  by (simp add: entity_pairs_def enumerate_append_eq)

lemma members_snoc:
  "members (items @ [x]) e = members items e @ (if e \<in> set (entities x) then [length items] else [])"
proof -
  have "filter (\<lambda>i. e \<in> set (entities ((items @ [x]) ! i))) [0..<length items] =
        filter (\<lambda>i. e \<in> set (entities (items ! i))) [0..<length items]"
    by (rule filter_cong) (auto simp: nth_append)
  then show ?thesis by (simp add: members_def)
qed

lemma entity_pairs_members:
  "\<forall>it\<in>set items. distinct (entities it) \<Longrightarrow>
   map snd (filter (\<lambda>p. fst p = e) (entity_pairs items)) = members items e"
proof (induction items rule: rev_induct)
  case Nil
  then show ?case by (simp add: entity_pairs_def members_def)
next
  case (snoc x items)
  then have "map snd (filter (\<lambda>p. fst p = e) (entity_pairs items)) = members items e" by simp
  moreover have "distinct (entities x)" using snoc.prems by simp
  ultimately show ?case
    by (simp only: entity_pairs_snoc members_snoc filter_append map_append
        indices_of_entity_in_item)
qed

lemma entity_to_items_distinct: "distinct (map fst (entity_to_items items))"
  unfolding entity_to_items_pairs by (rule fold_append_to_distinct) simp

lemma entity_to_items_lookup:
  assumes "\<forall>it\<in>set items. distinct (entities it)"
  shows "map_of (entity_to_items items) e =
         (if members items e = [] then None else Some (members items e))"
  unfolding entity_to_items_pairs
  using fold_append_to_map_of [of fst snd "entity_pairs items" "[]" e]
    entity_pairs_members [OF assms, of e]
  by (auto split: if_splits)

lemma entity_to_items_member:
  assumes "\<forall>it\<in>set items. distinct (entities it)" and "(e, idx) \<in> set (entity_to_items items)"
  shows "idx = members items e \<and> idx \<noteq> []"
proof -
  have "map_of (entity_to_items items) e = Some idx"
    using assms(2) entity_to_items_distinct by simp
  with entity_to_items_lookup [OF assms(1), of e] show ?thesis by (auto split: if_splits)
qed

lemma sorted_entities_member:
  assumes "\<forall>it\<in>set items. distinct (entities it)" and "(e, idx) \<in> set (sorted_entities items)"
  shows "idx = members items e \<and> idx \<noteq> []"
  using assms entity_to_items_member by (simp add: sorted_entities_def)

lemma members_distinct: "distinct (members items e)"
  by (simp add: members_def)

lemma members_set:
  "set (members items e) = {i. i < length items \<and> e \<in> set (entities (items ! i))}"
  by (auto simp: members_def)

subsection \<open>The claiming loop\<close>

lemma intersection_Inr:
  "intersection ss = Inr shared \<Longrightarrow> ss \<noteq> [] \<and> shared = filter (\<lambda>e. \<forall>t\<in>set (tl ss). e \<in> set t) (hd ss)"
  by (cases ss) auto

lemma claim_clusters_step:
  "claim_clusters iter items mcs ((entity, idx) # rest) used clusters =
     (if int (length (filter (\<lambda>i. i \<notin> used) idx)) < mcs
      then claim_clusters iter items mcs rest used clusters
      else case intersection (map (\<lambda>i. entities (items ! i)) (filter (\<lambda>i. i \<notin> used) idx)) of
           Inl e \<Rightarrow> Inl e
         | Inr shared \<Rightarrow>
             claim_clusters iter items mcs rest (used \<union> set (filter (\<lambda>i. i \<notin> used) idx))
               (clusters @ [new_cluster iter entity (map (\<lambda>i. items ! i) (filter (\<lambda>i. i \<notin> used) idx))
                             shared]))"
  by (simp add: Let_def comp_def)

lemma claim_clusters_invariant:
  "claim_clusters iter items mcs es used clusters = Inr (used', clusters') \<Longrightarrow>
   \<forall>c\<in>set clusters. P c \<Longrightarrow> \<forall>a\<in>set es. step_ok P iter items mcs a \<Longrightarrow>
   \<forall>c\<in>set clusters'. P c"
proof (induction es arbitrary: used clusters)
  case Nil
  then show ?case by simp
next
  case (Cons a es)
  obtain entity idx where a: "a = (entity, idx)" by (cases a)
  let ?av = "filter (\<lambda>i. i \<notin> used) idx"
  have rest: "\<forall>a\<in>set es. step_ok P iter items mcs a" using Cons.prems(3) by simp
  have here: "step_ok P iter items mcs (entity, idx)" using Cons.prems(3) a by simp
  show ?case
  proof (cases "int (length ?av) < mcs")
    case True
    with Cons.prems(1) a have "claim_clusters iter items mcs es used clusters = Inr (used', clusters')"
      by (simp only: claim_clusters_step if_True)
    from this Cons.prems(2) rest show ?thesis by (rule Cons.IH)
  next
    case False
    show ?thesis
    proof (cases "intersection (map (\<lambda>i. entities (items ! i)) ?av)")
      case (Inl e)
      with False Cons.prems(1) a show ?thesis by (simp only: claim_clusters_step) simp
    next
      case (Inr shared)
      with False Cons.prems(1) a have
        r: "claim_clusters iter items mcs es (used \<union> set ?av)
              (clusters @ [new_cluster iter entity (map (\<lambda>i. items ! i) ?av) shared]) = Inr (used', clusters')"
        by (simp only: claim_clusters_step) simp
      from intersection_Inr [OF Inr] have ne: "?av \<noteq> []" by simp
      have "set ?av \<subseteq> set idx" by auto
      moreover have "mcs \<le> int (length ?av)" using False by simp
      ultimately have "P (new_cluster iter entity (map (\<lambda>i. items ! i) ?av) shared)"
        using ne Inr here unfolding step_ok_def fst_conv snd_conv by blast
      with Cons.prems(2) have "\<forall>c\<in>set (clusters @ [new_cluster iter entity (map (\<lambda>i. items ! i) ?av) shared]). P c"
        by simp
      from r this rest show ?thesis by (rule Cons.IH)
    qed
  qed
qed

lemma claim_clusters_partition:
  assumes "claim_clusters iter items mcs es used clusters = Inr (used', clusters')"
    and "\<forall>(e, idx)\<in>set es. distinct idx \<and> set idx \<subseteq> {..<length items}"
    and "list_all2 (holds_indices items) clusters iss"
    and "distinct (concat iss)" and "set (concat iss) = used" and "used \<subseteq> {..<length items}"
  shows "\<exists>iss'. list_all2 (holds_indices items) clusters' iss' \<and> distinct (concat iss') \<and>
               set (concat iss') = used' \<and> used' \<subseteq> {..<length items}"
  using assms
proof (induction es arbitrary: used clusters iss)
  case Nil
  then show ?case by auto
next
  case (Cons a es)
  obtain entity idx where a: "a = (entity, idx)" by (cases a)
  let ?av = "filter (\<lambda>i. i \<notin> used) idx"
  have rest: "\<forall>(e, idx)\<in>set es. distinct idx \<and> set idx \<subseteq> {..<length items}"
    using Cons.prems(2) by simp
  have idx: "distinct idx" "set idx \<subseteq> {..<length items}" using Cons.prems(2) a by auto
  show ?case
  proof (cases "int (length ?av) < mcs")
    case True
    with Cons.prems(1) a have "claim_clusters iter items mcs es used clusters = Inr (used', clusters')"
      by (simp only: claim_clusters_step if_True)
    from Cons.IH [OF this rest Cons.prems(3-6)] show ?thesis .
  next
    case False
    show ?thesis
    proof (cases "intersection (map (\<lambda>i. entities (items ! i)) ?av)")
      case (Inl e)
      with False Cons.prems(1) a show ?thesis by (simp only: claim_clusters_step) simp
    next
      case (Inr shared)
      with False Cons.prems(1) a have
        r: "claim_clusters iter items mcs es (used \<union> set ?av)
              (clusters @ [new_cluster iter entity (map (\<lambda>i. items ! i) ?av) shared]) = Inr (used', clusters')"
        by (simp only: claim_clusters_step) simp
      have 1: "list_all2 (holds_indices items)
                 (clusters @ [new_cluster iter entity (map (\<lambda>i. items ! i) ?av) shared]) (iss @ [?av])"
        by (rule list_all2_appendI [OF Cons.prems(3)])
           (simp add: holds_indices_def new_cluster_def Let_def)
      have 2: "distinct (concat (iss @ [?av]))"
        using Cons.prems(4,5) idx(1) by auto
      have 3: "set (concat (iss @ [?av])) = used \<union> set ?av"
        using Cons.prems(5) by auto
      have 4: "used \<union> set ?av \<subseteq> {..<length items}"
        using Cons.prems(6) idx(2) by auto
      from Cons.IH [OF r rest 1 2 3 4] show ?thesis .
    qed
  qed
qed

lemma claim_clusters_returns:
  "1 \<le> mcs \<Longrightarrow> \<exists>r. claim_clusters iter items mcs es used clusters = Inr r"
proof (induction es arbitrary: used clusters)
  case Nil
  then show ?case by simp
next
  case (Cons a es)
  obtain entity idx where a: "a = (entity, idx)" by (cases a)
  let ?av = "filter (\<lambda>i. i \<notin> used) idx"
  show ?case
  proof (cases "int (length ?av) < mcs")
    case True
    with Cons.IH [OF Cons.prems] a show ?thesis by (simp only: claim_clusters_step if_True)
  next
    case False
    with Cons.prems have "?av \<noteq> []" by auto
    then obtain i rest where "?av = i # rest" by (cases ?av) auto
    then obtain shared where
      "intersection (map (\<lambda>i. entities (items ! i)) ?av) = Inr shared" by simp
    with False Cons.IH [OF Cons.prems] a show ?thesis
      by (simp only: claim_clusters_step) simp
  qed
qed

subsection \<open>The clusters cover the input\<close>

lemma enumerate_item: "(i, item) \<in> set (enumerate 0 items) \<Longrightarrow> i < length items \<and> item = items ! i"
  by (auto simp: in_set_enumerate_eq)

lemma singletons_indices:
  "list_all2 (holds_indices items) (singletons items used)
     (map (\<lambda>i. [i]) (filter (\<lambda>i. i \<notin> used) [0..<length items]))"
proof -
  let ?zs = "filter (\<lambda>(i, item). i \<notin> used) (enumerate 0 items)"
  have "filter (\<lambda>i. i \<notin> used) (map fst (enumerate 0 items)) =
        map fst (filter ((\<lambda>i. i \<notin> used) \<circ> fst) (enumerate 0 items))"
    by (rule filter_map)
  also have "(\<lambda>i. i \<notin> used) \<circ> fst = (\<lambda>(i, item :: normalized_item). i \<notin> used)"
    by (simp add: fun_eq_iff)
  finally have *: "filter (\<lambda>i. i \<notin> used) [0..<length items] = map fst ?zs" by simp
  have "list_all2 (holds_indices items)
          (map (\<lambda>(i, item). \<lparr>topic = None, shared_entities = entities item, cluster_items = [item]\<rparr>) ?zs)
          (map (\<lambda>i. [i]) (map fst ?zs))"
    unfolding list_all2_map1 list_all2_map2
    by (rule list_all2_same [THEN iffD2]) (auto simp: holds_indices_def dest: enumerate_item)
  then show ?thesis unfolding * singletons_def .
qed

lemma holds_indices_concat:
  "list_all2 (holds_indices items) cs iss \<Longrightarrow>
   concat (map cluster_items cs) = map (\<lambda>i. items ! i) (concat iss)"
  by (induction rule: list_all2_induct) (simp_all add: holds_indices_def)

lemma cluster_by_topic_InrE:
  assumes "cluster_by_topic iter items mcs = Inr cs" and "items \<noteq> []"
  obtains used clusters where
    "claim_clusters iter items mcs (sorted_entities items) {} [] = Inr (used, clusters)" and
    "cs = sort_key cluster_key (clusters @ singletons items used)"
proof (cases "claim_clusters iter items mcs (sorted_entities items) {} []")
  case (Inl e)
  with assms show ?thesis by (simp add: cluster_by_topic_def)
next
  case (Inr r)
  obtain used clusters where r: "r = (used, clusters)" by (cases r)
  with Inr assms have "cs = sort_key cluster_key (clusters @ singletons items used)"
    by (simp add: cluster_by_topic_def)
  with Inr r that show ?thesis by blast
qed

lemma sorted_entities_indices:
  assumes "\<forall>it\<in>set items. distinct (entities it)"
  shows "\<forall>(e, idx)\<in>set (sorted_entities items). distinct idx \<and> set idx \<subseteq> {..<length items}"
  using sorted_entities_member [OF assms] members_distinct members_set by fastforce

lemma cluster_by_topic_indices:
  assumes "cluster_by_topic iter items mcs = Inr cs"
    and "\<forall>it\<in>set items. distinct (entities it)"
  shows "\<exists>iss. list_all2 (holds_indices items) cs iss \<and> mset (concat iss) = mset [0..<length items]"
proof (cases "items = []")
  case True
  with assms(1) have "cs = []" by (simp add: cluster_by_topic_def)
  with True show ?thesis by simp
next
  case False
  with assms(1) obtain used clusters where
    c: "claim_clusters iter items mcs (sorted_entities items) {} [] = Inr (used, clusters)" and
    s: "cs = sort_key cluster_key (clusters @ singletons items used)"
    by (rule cluster_by_topic_InrE)
  have "\<exists>iss'. list_all2 (holds_indices items) clusters iss' \<and> distinct (concat iss') \<and>
               set (concat iss') = used \<and> used \<subseteq> {..<length items}"
    by (rule claim_clusters_partition [OF c sorted_entities_indices [OF assms(2)], of "[]"]) simp_all
  then obtain iss where
    i: "list_all2 (holds_indices items) clusters iss" "distinct (concat iss)"
       "set (concat iss) = used" "used \<subseteq> {..<length items}" by blast
  let ?rest = "map (\<lambda>i. [i]) (filter (\<lambda>i. i \<notin> used) [0..<length items])"
  have all: "list_all2 (holds_indices items) (clusters @ singletons items used) (iss @ ?rest)"
    using i(1) singletons_indices by (rule list_all2_appendI)
  have "concat ?rest = filter (\<lambda>i. i \<notin> used) [0..<length items]"
    by (simp add: concat_map_singleton)
  then have d: "distinct (concat (iss @ ?rest))" and
    e: "set (concat (iss @ ?rest)) = set [0..<length items]"
    using i(2,3,4) by auto
  have m: "mset (concat (iss @ ?rest)) = mset [0..<length items]"
    using d e by (metis distinct_upt set_eq_iff_mset_eq_distinct)
  have "mset cs = mset (clusters @ singletons items used)" by (simp add: s)
  from list_all2_reorder_left_invariance [OF all this] obtain iss' where
    "list_all2 (holds_indices items) cs iss'" and "mset iss' = mset (iss @ ?rest)" by blast
  moreover from this(2) have "mset (concat iss') = mset (concat (iss @ ?rest))"
    using mset_concat_map_cong [of iss' "iss @ ?rest" "\<lambda>x. x"] by simp
  ultimately show ?thesis using m by auto
qed

lemma cluster_by_topic_returns:
  assumes "1 \<le> mcs"
  shows "\<exists>cs. cluster_by_topic iter items mcs = Inr cs"
proof (cases "items = []")
  case True
  then show ?thesis by (simp add: cluster_by_topic_def)
next
  case False
  from claim_clusters_returns [OF assms] obtain r where
    "claim_clusters iter items mcs (sorted_entities items) {} [] = Inr r" by blast
  with False show ?thesis by (cases r) (simp add: cluster_by_topic_def)
qed

lemma cluster_by_topic_partition:
  assumes "cluster_by_topic iter items mcs = Inr cs"
    and "\<forall>it\<in>set items. distinct (entities it)"
  shows "mset (concat (map cluster_items cs)) = mset items"
proof -
  from cluster_by_topic_indices [OF assms] obtain iss where
    i: "list_all2 (holds_indices items) cs iss" "mset (concat iss) = mset [0..<length items]"
    by blast
  have "mset (concat (map cluster_items cs)) = image_mset (\<lambda>i. items ! i) (mset (concat iss))"
    by (simp add: holds_indices_concat [OF i(1)])
  also have "\<dots> = mset (map (\<lambda>i. items ! i) [0..<length items])" by (simp add: i(2))
  also have "\<dots> = mset items" by (simp add: map_nth)
  finally show ?thesis .
qed

subsection \<open>What a cluster holds\<close>

lemma intersection_set:
  "intersection ss = Inr shared \<Longrightarrow> set shared = (\<Inter>s\<in>set ss. set s)"
  by (cases ss) auto

lemma intersection_single: "intersection [s] = Inr shared \<Longrightarrow> shared = s"
  by simp

lemma pick_topic_in: "pick_topic entity es \<in> insert entity (set es)"
  by (induction es) auto

lemma new_cluster_claimed:
  assumes av: "set avail \<subseteq> set (members items e)" "avail \<noteq> []" "mcs \<le> int (length avail)"
    and sh: "intersection (map (\<lambda>i. entities (items ! i)) avail) = Inr shared"
  shows "claimed_cluster iter items mcs (new_cluster iter e (map (\<lambda>i. items ! i) avail) shared)"
proof -
  let ?se = "if shared = [] then [e] else shared"
  have mem: "\<And>i. i \<in> set avail \<Longrightarrow> i < length items \<and> e \<in> set (entities (items ! i))"
    using av(1) by (auto simp: members_set)
  have S: "set shared = (\<Inter>i\<in>set avail. set (entities (items ! i)))"
    using intersection_set [OF sh] by simp
  have sub: "\<And>i. i \<in> set avail \<Longrightarrow> set ?se \<subseteq> set (entities (items ! i))"
    using S mem by auto
  have 1: "\<forall>it\<in>set (map (\<lambda>i. items ! i) avail). set ?se \<subseteq> set (entities it)"
    using sub by auto
  have 2: "set (map (\<lambda>i. items ! i) avail) \<subseteq> set items" using mem by auto
  have 3: "length avail = 1 \<longrightarrow> set ?se = set (entities (hd (map (\<lambda>i. items ! i) avail)))"
  proof
    assume "length avail = 1"
    then obtain i where a: "avail = [i]" by (cases avail) auto
    with sh have "shared = entities (items ! i)" by simp
    moreover have "e \<in> set (entities (items ! i))" using mem a by simp
    ultimately show "set ?se = set (entities (hd (map (\<lambda>i. items ! i) avail)))"
      using a by auto
  qed
  have 4: "iterates_elements iter \<longrightarrow>
           (\<exists>it\<in>set items. pick_topic e (iter ?se) \<in> set (entities it))"
  proof
    assume "iterates_elements iter"
    then have "set (iter ?se) = set ?se" by (simp add: iterates_elements_def)
    with pick_topic_in [of e "iter ?se"] have "pick_topic e (iter ?se) \<in> insert e (set ?se)"
      by simp
    moreover obtain i where i: "i \<in> set avail" using av(2) by (cases avail) auto
    ultimately have "pick_topic e (iter ?se) \<in> set (entities (items ! i))"
      using sub [OF i] mem [OF i] by auto
    moreover have "items ! i \<in> set items" using mem [OF i] by simp
    ultimately show "\<exists>it\<in>set items. pick_topic e (iter ?se) \<in> set (entities it)" by blast
  qed
  show ?thesis
    unfolding claimed_cluster_def new_cluster_def Let_def
    using av(2,3) 1 2 3 4 by simp
qed

lemma claim_clusters_claimed:
  assumes "claim_clusters iter items mcs (sorted_entities items) {} [] = Inr (used, clusters)"
    and "entity_sets items"
  shows "\<forall>c\<in>set clusters. claimed_cluster iter items mcs c"
proof (rule claim_clusters_invariant [OF assms(1)])
  show "\<forall>c\<in>set []. claimed_cluster iter items mcs c" by simp
  show "\<forall>a\<in>set (sorted_entities items). step_ok (claimed_cluster iter items mcs) iter items mcs a"
  proof
    fix a assume a: "a \<in> set (sorted_entities items)"
    obtain e idx where ae: "a = (e, idx)" by (cases a)
    with a assms(2) have "idx = members items e"
      using sorted_entities_member [of items e idx] by (simp add: entity_sets_def)
    then show "step_ok (claimed_cluster iter items mcs) iter items mcs a"
      unfolding step_ok_def ae fst_conv snd_conv using new_cluster_claimed by blast
  qed
qed

lemma singletons_leftover: "\<forall>c\<in>set (singletons items used). leftover_cluster items c"
  unfolding singletons_def leftover_cluster_def
  by (auto dest!: enumerate_item)

lemma cluster_by_topic_kinds:
  assumes "cluster_by_topic iter items mcs = Inr cs" and "entity_sets items" and "c \<in> set cs"
  shows "claimed_cluster iter items mcs c \<or> leftover_cluster items c"
proof (cases "items = []")
  case True
  with assms show ?thesis by (simp add: cluster_by_topic_def)
next
  case False
  with assms(1) obtain used clusters where
    cl: "claim_clusters iter items mcs (sorted_entities items) {} [] = Inr (used, clusters)" and
    s: "cs = sort_key cluster_key (clusters @ singletons items used)"
    by (rule cluster_by_topic_InrE)
  from assms(3) s have "c \<in> set clusters \<or> c \<in> set (singletons items used)" by auto
  with claim_clusters_claimed [OF cl assms(2)] singletons_leftover show ?thesis by blast
qed

lemma cluster_by_topic_sorted:
  assumes "cluster_by_topic iter items mcs = Inr cs"
  shows "sorted (map cluster_key cs)"
proof (cases "items = []")
  case True
  with assms show ?thesis by (simp add: cluster_by_topic_def)
next
  case False
  with assms obtain used clusters where
    "cs = sort_key cluster_key (clusters @ singletons items used)"
    by (rule cluster_by_topic_InrE)
  then show ?thesis by (simp add: sorted_sort_key)
qed

lemma topic_or_zzz_label:
  assumes "cluster_by_topic iter items mcs = Inr cs" and "entity_sets items"
    and "iterates_elements iter" and "labels_before_zzz items" and "c \<in> set cs"
  shows "case topic c of None \<Rightarrow> topic_or_zzz c = ''zzz''
         | Some t \<Rightarrow> topic_or_zzz c = t \<and> t < ''zzz''"
proof -
  from cluster_by_topic_kinds [OF assms(1,2,5)] show ?thesis
  proof
    assume "claimed_cluster iter items mcs c"
    with assms(3) obtain t it where "topic c = Some t" "it \<in> set items" "t \<in> set (entities it)"
      unfolding claimed_cluster_def by blast
    with assms(4) show ?thesis by (auto simp: labels_before_zzz_def topic_or_zzz_def)
  next
    assume "leftover_cluster items c"
    then show ?thesis by (auto simp: leftover_cluster_def topic_or_zzz_def)
  qed
qed

subsection \<open>Statements about the clusterer\<close>

lemmas cluster_eval = cluster_by_topic_def sorted_entities_def entity_to_items_def singletons_def
  cluster_key_def topic_or_zzz_def list_order_def item_with_def GENERIC_TOPICS_def enumerate_eq_zip
  new_cluster_def Let_def empty_source_def

text \<open>
  C1 (as amended). For every sequence of items whose entities are sets: with a minimum
  cluster size of at least 1, \<^verbatim>\<open>cluster_by_topic\<close> returns; and whenever it returns, every
  index of the input is in exactly one cluster, once, so that the clusters together hold the
  items of the input, none lost and none twice.
\<close>

theorem clusters_partition_the_input:
  assumes "entity_sets items"
  shows "(1 \<le> mcs \<longrightarrow> (\<exists>cs. cluster_by_topic iter items mcs = Inr cs)) \<and>
         (\<forall>cs. cluster_by_topic iter items mcs = Inr cs \<longrightarrow>
            (\<exists>iss. list_all2 (holds_indices items) cs iss \<and>
                   mset (concat iss) = mset [0..<length items]) \<and>
            mset (concat (map cluster_items cs)) = mset items)"
  using assms cluster_by_topic_returns cluster_by_topic_indices cluster_by_topic_partition
  unfolding entity_sets_def by blast

theorem clusters_partition_the_input_witness:
  "entity_sets [item_with ''A'' [''OpenAI''], item_with ''B'' [''OpenAI'', ''Sora''],
                item_with ''C'' [''Anthropic'']] \<and>
   (\<exists>cs. cluster_by_topic list_order
            [item_with ''A'' [''OpenAI''], item_with ''B'' [''OpenAI'', ''Sora''],
             item_with ''C'' [''Anthropic'']] 2 = Inr cs \<and>
         mset (concat (map cluster_items cs)) =
         mset [item_with ''A'' [''OpenAI''], item_with ''B'' [''OpenAI'', ''Sora''],
               item_with ''C'' [''Anthropic'']])"
proof -
  have h: "entity_sets [item_with ''A'' [''OpenAI''], item_with ''B'' [''OpenAI'', ''Sora''],
                item_with ''C'' [''Anthropic'']]"
    by (simp add: entity_sets_def item_with_def)
  from clusters_partition_the_input [OF h, of 2 list_order] h show ?thesis by auto
qed

text \<open>
  The claim C1 as stated, for every minimum cluster size, fails at the size 0: the second
  entity of the item has no index left, and the intersection of no set raises.
\<close>

theorem minimum_size_zero_raises:
  "cluster_by_topic list_order [item_with ''A'' [''OpenAI'', ''Sora'']] 0 = Inl TypeError"
  by (simp add: cluster_eval)

text \<open>
  C2. In the output of \<^verbatim>\<open>cluster_by_topic\<close> a cluster never has fewer items than a cluster
  after it, so that a cluster of several items never follows a cluster of one item; and of
  two clusters with the same number of items, given entity labels as the extractor produces
  them, the earlier has the smaller or the same topic label, and a cluster without topic is
  not followed by one with a topic.
\<close>

theorem clusters_sorted_by_size_then_topic:
  assumes "cluster_by_topic iter items mcs = Inr cs" and "i < j" and "j < length cs"
  shows "length (cluster_items (cs ! j)) \<le> length (cluster_items (cs ! i)) \<and>
         (1 < length (cluster_items (cs ! j)) \<longrightarrow> 1 < length (cluster_items (cs ! i))) \<and>
         (entity_sets items \<and> iterates_elements iter \<and> labels_before_zzz items \<and>
          length (cluster_items (cs ! i)) = length (cluster_items (cs ! j)) \<longrightarrow>
            (case (topic (cs ! i), topic (cs ! j)) of
               (Some a, Some b) \<Rightarrow> a \<le> b
             | (None, Some b) \<Rightarrow> False
             | (_, None) \<Rightarrow> True))"
proof -
  have "sorted (map cluster_key cs)" by (rule cluster_by_topic_sorted [OF assms(1)])
  then have k: "cluster_key (cs ! i) \<le> cluster_key (cs ! j)"
    using assms(2,3) by (simp add: sorted_iff_nth_mono)
  then have 1: "length (cluster_items (cs ! j)) \<le> length (cluster_items (cs ! i))"
    by (auto simp: cluster_key_def less_eq_prod_def)
  have 3: "case (topic (cs ! i), topic (cs ! j)) of
               (Some a, Some b) \<Rightarrow> a \<le> b
             | (None, Some b) \<Rightarrow> False
             | (_, None) \<Rightarrow> True"
    if h: "entity_sets items" "iterates_elements iter" "labels_before_zzz items"
      and e: "length (cluster_items (cs ! i)) = length (cluster_items (cs ! j))"
  proof -
    have ci: "cs ! i \<in> set cs" and cj: "cs ! j \<in> set cs" using assms(2,3) by simp_all
    from k e have t: "topic_or_zzz (cs ! i) \<le> topic_or_zzz (cs ! j)"
      by (auto simp: cluster_key_def less_eq_prod_def)
    from topic_or_zzz_label [OF assms(1) h ci] topic_or_zzz_label [OF assms(1) h cj] t
    show ?thesis by (auto split: option.splits)
  qed
  from 1 3 show ?thesis by auto
qed

theorem clusters_sorted_by_size_then_topic_witness:
  "cluster_by_topic list_order
     [item_with ''A'' [''Sora''], item_with ''B'' [''OpenAI''], item_with ''C'' [''Sora''],
      item_with ''D'' [''OpenAI''], item_with ''E'' [''Claude''], item_with ''F'' [''Nvidia''],
      item_with ''G'' [''Claude''], item_with ''H'' [''Claude'']] 2 =
   Inr [\<lparr>topic = Some ''Claude'', shared_entities = [''Claude''],
          cluster_items = [item_with ''E'' [''Claude''], item_with ''G'' [''Claude''],
                           item_with ''H'' [''Claude'']]\<rparr>,
        \<lparr>topic = Some ''OpenAI'', shared_entities = [''OpenAI''],
          cluster_items = [item_with ''B'' [''OpenAI''], item_with ''D'' [''OpenAI'']]\<rparr>,
        \<lparr>topic = Some ''Sora'', shared_entities = [''Sora''],
          cluster_items = [item_with ''A'' [''Sora''], item_with ''C'' [''Sora'']]\<rparr>,
        \<lparr>topic = None, shared_entities = [''Nvidia''],
          cluster_items = [item_with ''F'' [''Nvidia'']]\<rparr>] \<and>
   (2::nat) \<le> 3 \<and> ''OpenAI'' \<le> ''Sora''"
proof -
  let ?items = "[item_with ''A'' [''Sora''], item_with ''B'' [''OpenAI''], item_with ''C'' [''Sora''],
      item_with ''D'' [''OpenAI''], item_with ''E'' [''Claude''], item_with ''F'' [''Nvidia''],
      item_with ''G'' [''Claude''], item_with ''H'' [''Claude'']]"
  let ?cs = "[\<lparr>topic = Some ''Claude'', shared_entities = [''Claude''],
          cluster_items = [item_with ''E'' [''Claude''], item_with ''G'' [''Claude''],
                           item_with ''H'' [''Claude'']]\<rparr>,
        \<lparr>topic = Some ''OpenAI'', shared_entities = [''OpenAI''],
          cluster_items = [item_with ''B'' [''OpenAI''], item_with ''D'' [''OpenAI'']]\<rparr>,
        \<lparr>topic = Some ''Sora'', shared_entities = [''Sora''],
          cluster_items = [item_with ''A'' [''Sora''], item_with ''C'' [''Sora'']]\<rparr>,
        \<lparr>topic = None, shared_entities = [''Nvidia''],
          cluster_items = [item_with ''F'' [''Nvidia'']]\<rparr>]"
  have h: "cluster_by_topic list_order ?items 2 = Inr ?cs"
    by (simp add: cluster_eval)
  have es: "entity_sets ?items" by (simp add: entity_sets_def item_with_def)
  have it: "iterates_elements list_order" by (simp add: iterates_elements_def list_order_def)
  have lb: "labels_before_zzz ?items" by (simp add: labels_before_zzz_def item_with_def)
  have a: "length (cluster_items (?cs ! 1)) \<le> length (cluster_items (?cs ! 0))"
    using clusters_sorted_by_size_then_topic [OF h, of 0 1] by simp
  have b: "case (topic (?cs ! 1), topic (?cs ! 2)) of
               (Some a, Some b) \<Rightarrow> a \<le> b
             | (None, Some b) \<Rightarrow> False
             | (_, None) \<Rightarrow> True"
    using clusters_sorted_by_size_then_topic [OF h, of 1 2] es it lb by simp
  from h a b show ?thesis by simp
qed

lemma topicless_before_label_past_zzz:
  "cluster_by_topic list_order [item_with ''A'' [], item_with ''B'' [''zzzz'']] 1 =
   Inr [\<lparr>topic = None, shared_entities = [], cluster_items = [item_with ''A'' []]\<rparr>,
        \<lparr>topic = Some ''zzzz'', shared_entities = [''zzzz''],
          cluster_items = [item_with ''B'' [''zzzz'']]\<rparr>]"
  by (simp add: cluster_eval)

text \<open>
  C8. In the output of \<^verbatim>\<open>cluster_by_topic\<close>, every item of a cluster holds every shared
  entity of the cluster; a cluster of one item carries exactly the entities of that item; a
  cluster without topic has one item; and with a minimum cluster size of at least 2 (the
  default) every cluster of one item is without topic.
\<close>

theorem shared_entities_in_every_item:
  assumes "cluster_by_topic iter items mcs = Inr cs" and "entity_sets items" and "c \<in> set cs"
  shows "(\<forall>it\<in>set (cluster_items c). set (shared_entities c) \<subseteq> set (entities it)) \<and>
         (length (cluster_items c) = 1 \<longrightarrow>
            set (shared_entities c) = set (entities (hd (cluster_items c)))) \<and>
         (topic c = None \<longrightarrow> length (cluster_items c) = 1) \<and>
         (2 \<le> mcs \<and> length (cluster_items c) = 1 \<longrightarrow> topic c = None) \<and>
         cluster_items c \<noteq> []"
proof -
  from cluster_by_topic_kinds [OF assms] show ?thesis
  proof
    assume "claimed_cluster iter items mcs c"
    then show ?thesis unfolding claimed_cluster_def by auto
  next
    assume "leftover_cluster items c"
    then show ?thesis unfolding leftover_cluster_def by auto
  qed
qed

theorem shared_entities_in_every_item_witness:
  "cluster_by_topic list_order
     [item_with ''A'' [''OpenAI'', ''Sora''], item_with ''B'' [''Sora'', ''OpenAI'', ''Codex''],
      item_with ''C'' [''Anthropic'']] 2 =
   Inr [\<lparr>topic = Some ''OpenAI'', shared_entities = [''OpenAI'', ''Sora''],
          cluster_items = [item_with ''A'' [''OpenAI'', ''Sora''],
                           item_with ''B'' [''Sora'', ''OpenAI'', ''Codex'']]\<rparr>,
        \<lparr>topic = None, shared_entities = [''Anthropic''],
          cluster_items = [item_with ''C'' [''Anthropic'']]\<rparr>] \<and>
   set [''OpenAI'', ''Sora''] \<subseteq> set (entities (item_with ''B'' [''Sora'', ''OpenAI'', ''Codex'']))"
proof -
  let ?items = "[item_with ''A'' [''OpenAI'', ''Sora''], item_with ''B'' [''Sora'', ''OpenAI'', ''Codex''],
      item_with ''C'' [''Anthropic'']]"
  let ?c = "\<lparr>topic = Some ''OpenAI'', shared_entities = [''OpenAI'', ''Sora''],
          cluster_items = [item_with ''A'' [''OpenAI'', ''Sora''],
                           item_with ''B'' [''Sora'', ''OpenAI'', ''Codex'']]\<rparr>"
  let ?cs = "[?c, \<lparr>topic = None, shared_entities = [''Anthropic''],
          cluster_items = [item_with ''C'' [''Anthropic'']]\<rparr>]"
  have h: "cluster_by_topic list_order ?items 2 = Inr ?cs"
    by (simp add: cluster_eval)
  have es: "entity_sets ?items" by (simp add: entity_sets_def item_with_def)
  have "?c \<in> set ?cs" by simp
  from shared_entities_in_every_item [OF h es this] h show ?thesis by simp
qed

text \<open>
  With the minimum cluster size 1 an entity claims a single item, and the cluster of that
  item has a topic.
\<close>

lemma cluster_of_one_item_with_topic:
  "cluster_by_topic list_order [item_with ''A'' [''OpenAI'']] 1 =
   Inr [\<lparr>topic = Some ''OpenAI'', shared_entities = [''OpenAI''],
          cluster_items = [item_with ''A'' [''OpenAI'']]\<rparr>]"
  by (simp add: cluster_eval)

subsection \<open>Reordered inputs\<close>

lemma unused_empty: "unused items {} = items"
  by (simp add: unused_def map_nth)

lemma chosen_unused:
  "map (\<lambda>i. items ! i) (filter (\<lambda>i. i \<notin> used) (members items e)) =
   filter (\<lambda>it. e \<in> set (entities it)) (unused items used)"
proof -
  have "filter (\<lambda>it. e \<in> set (entities it)) (unused items used) =
        map (\<lambda>i. items ! i)
          (filter ((\<lambda>it. e \<in> set (entities it)) \<circ> (\<lambda>i. items ! i))
             (filter (\<lambda>i. i \<notin> used) [0..<length items]))"
    unfolding unused_def by (rule filter_map)
  also have "filter ((\<lambda>it. e \<in> set (entities it)) \<circ> (\<lambda>i. items ! i))
               (filter (\<lambda>i. i \<notin> used) [0..<length items]) =
             filter (\<lambda>i. i \<notin> used) (members items e)"
    unfolding members_def by (simp add: comp_def conj_commute)
  finally show ?thesis by simp
qed

lemma unused_after_claim:
  "unused items (used \<union> set (filter (\<lambda>i. i \<notin> used) (members items e))) =
   filter (\<lambda>it. e \<notin> set (entities it)) (unused items used)"
proof -
  have "filter (\<lambda>it. e \<notin> set (entities it)) (unused items used) =
        map (\<lambda>i. items ! i)
          (filter ((\<lambda>it. e \<notin> set (entities it)) \<circ> (\<lambda>i. items ! i))
             (filter (\<lambda>i. i \<notin> used) [0..<length items]))"
    unfolding unused_def by (rule filter_map)
  also have "filter ((\<lambda>it. e \<notin> set (entities it)) \<circ> (\<lambda>i. items ! i))
               (filter (\<lambda>i. i \<notin> used) [0..<length items]) =
             filter (\<lambda>i. i \<notin> used \<union> set (filter (\<lambda>i. i \<notin> used) (members items e)))
               [0..<length items]"
    unfolding filter_filter by (rule filter_cong) (auto simp: members_def)
  finally show ?thesis by (simp add: unused_def)
qed

lemma claim_items_clusters:
  assumes "\<forall>(e, idx)\<in>set es. idx = members items e"
  shows "claim_items iter mcs (map fst es) (unused items used) clusters =
         (case claim_clusters iter items mcs es used clusters of
            Inl x \<Rightarrow> Inl x
          | Inr (u, cl) \<Rightarrow> Inr (unused items u, cl))"
  using assms
proof (induction es arbitrary: used clusters)
  case Nil
  then show ?case by simp
next
  case (Cons a es)
  obtain e idx where a: "a = (e, idx)" by (cases a)
  from Cons.prems a have idx: "idx = members items e" by simp
  from Cons.prems have rest: "\<forall>(e, idx)\<in>set es. idx = members items e" by simp
  let ?av = "filter (\<lambda>i. i \<notin> used) (members items e)"
  let ?chosen = "filter (\<lambda>it. e \<in> set (entities it)) (unused items used)"
  have ch: "map (\<lambda>i. items ! i) ?av = ?chosen" by (rule chosen_unused)
  have len: "length ?av = length ?chosen" using ch by (metis length_map)
  have ents: "map (\<lambda>i. entities (items ! i)) ?av = map entities ?chosen"
    using ch by (metis (no_types, lifting) map_map comp_def map_eq_conv)
  show ?case
  proof (cases "int (length ?av) < mcs")
    case True
    then show ?thesis
      using Cons.IH [OF rest, of used clusters] len
      by (simp only: a idx list.map fst_conv claim_items.simps claim_clusters_step if_True)
  next
    case False
    show ?thesis
    proof (cases "intersection (map entities ?chosen)")
      case (Inl x)
      with False len ents show ?thesis
        by (simp only: a idx list.map fst_conv claim_items.simps claim_clusters_step) simp
    next
      case (Inr shared)
      have "claim_items iter mcs (map fst es)
              (unused items (used \<union> set ?av))
              (clusters @ [new_cluster iter e ?chosen shared]) =
            (case claim_clusters iter items mcs es (used \<union> set ?av)
                    (clusters @ [new_cluster iter e ?chosen shared]) of
               Inl x \<Rightarrow> Inl x
             | Inr (u, cl) \<Rightarrow> Inr (unused items u, cl))"
        by (rule Cons.IH [OF rest])
      with False Inr len ents ch show ?thesis
        by (simp only: a idx list.map fst_conv claim_items.simps claim_clusters_step
            unused_after_claim) simp
    qed
  qed
qed

lemma intersection_Nil_iff: "intersection ss = Inl TypeError \<longleftrightarrow> ss = []"
  by (cases ss) simp_all

lemma new_cluster_view:
  assumes "set_determined iter" and "mset chosen' = mset chosen"
    and "set shared' = set shared"
  shows "cluster_view (new_cluster iter e chosen' shared') =
         cluster_view (new_cluster iter e chosen shared)"
proof -
  have n: "shared' = [] \<longleftrightarrow> shared = []" using assms(3) by (metis set_empty)
  then have "set (if shared' = [] then [e] else shared') = set (if shared = [] then [e] else shared)"
    using assms(3) by simp
  with assms(1) have "iter (if shared' = [] then [e] else shared') =
                      iter (if shared = [] then [e] else shared)"
    unfolding set_determined_def by blast
  with n assms(2,3) show ?thesis
    by (simp add: cluster_view_def new_cluster_def Let_def)
qed

lemma claim_items_reordered:
  assumes "set_determined iter"
  shows "mset remaining' = mset remaining \<Longrightarrow>
         map cluster_view clusters' = map cluster_view clusters \<Longrightarrow>
         same_outcome (claim_items iter mcs es remaining clusters)
                      (claim_items iter mcs es remaining' clusters')"
proof (induction es arbitrary: remaining remaining' clusters clusters')
  case Nil
  then show ?case by (simp add: same_outcome_def)
next
  case (Cons e es)
  let ?P = "\<lambda>it. e \<in> set (entities it)"
  let ?ch = "filter ?P remaining" and ?ch' = "filter ?P remaining'"
  have m: "mset ?ch' = mset ?ch" using Cons.prems(1) by (simp add: mset_filter)
  then have len: "length ?ch' = length ?ch" by (metis size_mset)
  show ?case
  proof (cases "int (length ?ch) < mcs")
    case True
    then have 1: "claim_items iter mcs (e # es) remaining clusters =
                  claim_items iter mcs es remaining clusters" by simp
    from True len have 2: "claim_items iter mcs (e # es) remaining' clusters' =
                  claim_items iter mcs es remaining' clusters'" by simp
    show ?thesis unfolding 1 2 by (rule Cons.IH [OF Cons.prems])
  next
    case False
    show ?thesis
    proof (cases "intersection (map entities ?ch)")
      case (Inl x)
      then have e: "?ch = []" by (cases ?ch) simp_all
      with len have e': "?ch' = []" by simp
      from False e have 1: "claim_items iter mcs (e # es) remaining clusters = Inl TypeError"
        by simp
      from False len e' have 2: "claim_items iter mcs (e # es) remaining' clusters' = Inl TypeError"
        by simp
      show ?thesis unfolding 1 2 by (simp add: same_outcome_def)
    next
      case (Inr shared)
      then have ne: "?ch \<noteq> []" by (cases ?ch) simp_all
      with len have ne': "?ch' \<noteq> []" by auto
      then obtain shared' where Inr': "intersection (map entities ?ch') = Inr shared'"
        by (cases ?ch') simp_all
      have "set (map entities ?ch') = set (map entities ?ch)"
        using m by (metis mset_eq_setD mset_map)
      then have s: "set shared' = set shared"
        using intersection_set [OF Inr] intersection_set [OF Inr'] by simp
      have r: "mset (filter (\<lambda>it. e \<notin> set (entities it)) remaining') =
               mset (filter (\<lambda>it. e \<notin> set (entities it)) remaining)"
        using Cons.prems(1) by (simp add: mset_filter)
      have c: "map cluster_view (clusters' @ [new_cluster iter e ?ch' shared']) =
               map cluster_view (clusters @ [new_cluster iter e ?ch shared])"
        using Cons.prems(2) new_cluster_view [OF assms m s] by simp
      from False Inr have 1: "claim_items iter mcs (e # es) remaining clusters =
          claim_items iter mcs es (filter (\<lambda>it. e \<notin> set (entities it)) remaining)
            (clusters @ [new_cluster iter e ?ch shared])" by simp
      from False len Inr' have 2: "claim_items iter mcs (e # es) remaining' clusters' =
          claim_items iter mcs es (filter (\<lambda>it. e \<notin> set (entities it)) remaining')
            (clusters' @ [new_cluster iter e ?ch' shared'])" by simp
      show ?thesis unfolding 1 2 by (rule Cons.IH [OF r c])
    qed
  qed
qed

lemma claim_items_topics:
  "claim_items iter mcs es remaining clusters = Inr (r, cl) \<Longrightarrow>
   \<forall>c\<in>set clusters. topic c \<noteq> None \<Longrightarrow> \<forall>c\<in>set cl. topic c \<noteq> None"
proof (induction es arbitrary: remaining clusters)
  case Nil
  then show ?case by simp
next
  case (Cons e es)
  let ?ch = "filter (\<lambda>it. e \<in> set (entities it)) remaining"
  show ?case
  proof (cases "int (length ?ch) < mcs")
    case True
    with Cons.prems(1) have "claim_items iter mcs es remaining clusters = Inr (r, cl)" by simp
    from Cons.IH [OF this Cons.prems(2)] show ?thesis .
  next
    case False
    show ?thesis
    proof (cases "intersection (map entities ?ch)")
      case (Inl x)
      with False Cons.prems(1) show ?thesis by simp
    next
      case (Inr shared)
      with False Cons.prems(1) have
        "claim_items iter mcs es (filter (\<lambda>it. e \<notin> set (entities it)) remaining)
           (clusters @ [new_cluster iter e ?ch shared]) = Inr (r, cl)" by simp
      moreover have "\<forall>c\<in>set (clusters @ [new_cluster iter e ?ch shared]). topic c \<noteq> None"
        using Cons.prems(2) by (simp add: new_cluster_def Let_def)
      ultimately show ?thesis by (rule Cons.IH)
    qed
  qed
qed

lemma members_length:
  "length (members items e) = length (filter (\<lambda>it. e \<in> set (entities it)) items)"
proof -
  have "map (\<lambda>i. items ! i) (filter (\<lambda>i. i \<notin> {}) (members items e)) =
        filter (\<lambda>it. e \<in> set (entities it)) (unused items {})"
    by (rule chosen_unused)
  then have "map (\<lambda>i. items ! i) (members items e) = filter (\<lambda>it. e \<in> set (entities it)) items"
    by (simp add: unused_empty)
  then show ?thesis by (metis length_map)
qed

lemma members_length_reordered:
  assumes "mset items' = mset items"
  shows "length (members items' e) = length (members items e)"
proof -
  have "mset (filter (\<lambda>it. e \<in> set (entities it)) items') =
        mset (filter (\<lambda>it. e \<in> set (entities it)) items)"
    using assms by (simp add: mset_filter)
  then show ?thesis unfolding members_length by (metis size_mset)
qed

lemma members_empty_iff:
  "members items e = [] \<longleftrightarrow> e \<notin> (\<Union>it\<in>set items. set (entities it))"
proof -
  have "members items e \<noteq> [] \<longleftrightarrow> (\<exists>i<length items. e \<in> set (entities (items ! i)))"
    by (auto simp: members_def filter_empty_conv)
  also have "\<dots> \<longleftrightarrow> (\<exists>it\<in>set items. e \<in> set (entities it))"
    by (metis in_set_conv_nth)
  finally show ?thesis by auto
qed

lemma entity_to_items_keys:
  assumes "entity_sets items"
  shows "set (map fst (entity_to_items items)) = (\<Union>it\<in>set items. set (entities it))"
proof -
  have d: "\<forall>it\<in>set items. distinct (entities it)" using assms by (simp add: entity_sets_def)
  have "set (map fst (entity_to_items items)) = dom (map_of (entity_to_items items))"
    by (simp add: dom_map_of_conv_image_fst)
  also have "\<dots> = {e. members items e \<noteq> []}"
    using entity_to_items_lookup [OF d] by (auto simp: dom_def split: if_splits)
  also have "\<dots> = (\<Union>it\<in>set items. set (entities it))"
    using members_empty_iff by blast
  finally show ?thesis .
qed

lemma sorted_entities_keys:
  assumes "entity_sets items"
  shows "distinct (map fst (sorted_entities items))"
    and "set (map fst (sorted_entities items)) = (\<Union>it\<in>set items. set (entities it))"
    and "sorted (map (\<lambda>e. - int (length (members items e))) (map fst (sorted_entities items)))"
proof -
  have d: "\<forall>it\<in>set items. distinct (entities it)" using assms by (simp add: entity_sets_def)
  have "mset (map fst (sorted_entities items)) = mset (map fst (entity_to_items items))"
    by (simp add: sorted_entities_def)
  then show "distinct (map fst (sorted_entities items))"
    using entity_to_items_distinct [of items] by (metis mset_eq_imp_distinct_iff)
  show "set (map fst (sorted_entities items)) = (\<Union>it\<in>set items. set (entities it))"
    using entity_to_items_keys [OF assms] by (simp add: sorted_entities_def)
  have "map (\<lambda>e. - int (length (members items e))) (map fst (sorted_entities items)) =
        map (\<lambda>(e, idx). - int (length idx)) (sorted_entities items)"
    using sorted_entities_member [OF d] by (auto simp: comp_def)
  also have "sorted \<dots>" by (simp add: sorted_entities_def sorted_sort_key)
  finally show "sorted (map (\<lambda>e. - int (length (members items e)))
                   (map fst (sorted_entities items)))" .
qed

lemma sorted_distinct_key_unique:
  assumes "sorted (map g xs)" and "distinct xs" and "sorted (map g ys)" and "distinct ys"
    and "set xs = set ys" and "inj_on g (set xs)"
  shows "xs = ys"
proof -
  have "distinct (map g xs)" using assms(2,6) by (simp add: distinct_map)
  moreover have "distinct (map g ys)" using assms(4,5,6) by (simp add: distinct_map)
  moreover have "set (map g xs) = set (map g ys)" using assms(5) by simp
  ultimately have "map g xs = map g ys"
    using assms(1,3) by (metis sorted_distinct_set_unique)
  moreover have "inj_on g (set xs \<union> set ys)" using assms(5,6) by simp
  ultimately show ?thesis by (metis map_inj_on)
qed

lemma entity_sets_reordered: "mset items' = mset items \<Longrightarrow> entity_sets items \<Longrightarrow> entity_sets items'"
  unfolding entity_sets_def by (metis mset_eq_setD)

lemma sorted_entities_reordered:
  assumes "mset items' = mset items" and "entity_sets items" and "no_ties items"
  shows "map fst (sorted_entities items') = map fst (sorted_entities items)"
proof (rule sorted_distinct_key_unique [where g = "\<lambda>e. - int (length (members items e))"])
  have es': "entity_sets items'" by (rule entity_sets_reordered [OF assms(1,2)])
  have st: "set items' = set items" using assms(1) by (rule mset_eq_setD)
  show "sorted (map (\<lambda>e. - int (length (members items e))) (map fst (sorted_entities items')))"
    using sorted_entities_keys(3) [OF es'] by (simp add: members_length_reordered [OF assms(1)])
  show "distinct (map fst (sorted_entities items'))" by (rule sorted_entities_keys(1) [OF es'])
  show "sorted (map (\<lambda>e. - int (length (members items e))) (map fst (sorted_entities items)))"
    by (rule sorted_entities_keys(3) [OF assms(2)])
  show "distinct (map fst (sorted_entities items))" by (rule sorted_entities_keys(1) [OF assms(2)])
  show "set (map fst (sorted_entities items')) = set (map fst (sorted_entities items))"
    unfolding sorted_entities_keys(2) [OF es'] sorted_entities_keys(2) [OF assms(2)] st ..
  have "inj_on (\<lambda>e. length (members items e)) (set (map fst (sorted_entities items')))"
    using assms(3) unfolding no_ties_def sorted_entities_keys(2) [OF es'] st .
  then show "inj_on (\<lambda>e. - int (length (members items e))) (set (map fst (sorted_entities items')))"
    by (auto simp: inj_on_def)
qed

lemma enumerate_nth: "enumerate 0 items = map (\<lambda>i. (i, items ! i)) [0..<length items]"
proof -
  have "enumerate 0 (map (\<lambda>i. items ! i) [0..<length items]) =
        map (\<lambda>i. (i, items ! i)) [0..<length items]"
    by (rule enumerate_map_upt)
  then show ?thesis by (simp only: map_nth)
qed

lemma singletons_unused: "singletons items used = map single_cluster (unused items used)"
proof -
  have "filter (\<lambda>(i, item). i \<notin> used) (map (\<lambda>i. (i, items ! i)) [0..<length items]) =
        map (\<lambda>i. (i, items ! i)) (filter (\<lambda>i. i \<notin> used) [0..<length items])"
    by (simp add: filter_map comp_def)
  then show ?thesis
    unfolding singletons_def unused_def enumerate_nth
    by (simp add: comp_def single_cluster_def)
qed

lemma cluster_by_topic_as_items:
  assumes "entity_sets items"
  shows "cluster_by_topic iter items mcs =
         (if items = [] then Inr []
          else case claim_items iter mcs (map fst (sorted_entities items)) items [] of
            Inl x \<Rightarrow> Inl x
          | Inr (remaining, cl) \<Rightarrow>
              Inr (sort_key cluster_key (cl @ map single_cluster remaining)))"
proof -
  have d: "\<forall>it\<in>set items. distinct (entities it)" using assms by (simp add: entity_sets_def)
  have "\<forall>(e, idx)\<in>set (sorted_entities items). idx = members items e"
    using sorted_entities_member [OF d] by auto
  from claim_items_clusters [OF this, of iter mcs "{}" "[]"]
  have "claim_items iter mcs (map fst (sorted_entities items)) items [] =
         (case claim_clusters iter items mcs (sorted_entities items) {} [] of
            Inl x \<Rightarrow> Inl x
          | Inr (u, cl) \<Rightarrow> Inr (unused items u, cl))"
    by (simp only: unused_empty)
  then show ?thesis
    by (auto simp: cluster_by_topic_def singletons_unused split: sum.splits)
qed

lemma cluster_key_view: "cluster_key c = view_key (cluster_view c)"
  by (simp add: cluster_key_def view_key_def cluster_view_def topic_or_zzz_def)

lemma insort_key_views:
  "map v xs = map v ys \<Longrightarrow> v x = v y \<Longrightarrow>
   map v (insort_key (\<lambda>c. k (v c)) x xs) = map v (insort_key (\<lambda>c. k (v c)) y ys)"
proof (induction xs arbitrary: ys)
  case Nil
  then show ?case by simp
next
  case (Cons a xs)
  then obtain b ys' where ys: "ys = b # ys'" and ab: "v a = v b" and r: "map v xs = map v ys'"
    by (cases ys) auto
  from Cons.IH [OF r Cons.prems(2)] ab Cons.prems(2) r show ?case by (simp add: ys)
qed

lemma sort_key_views:
  "map v xs = map v ys \<Longrightarrow>
   map v (sort_key (\<lambda>c. k (v c)) xs) = map v (sort_key (\<lambda>c. k (v c)) ys)"
proof (induction xs arbitrary: ys)
  case Nil
  then show ?case by simp
next
  case (Cons a xs)
  then obtain b ys' where ys: "ys = b # ys'" and ab: "v a = v b" and r: "map v xs = map v ys'"
    by (cases ys) auto
  from insort_key_views [OF Cons.IH [OF r] ab] show ?case by (simp add: ys)
qed

lemma sort_cluster_views:
  "map cluster_view xs = map cluster_view ys \<Longrightarrow>
   map cluster_view (sort_key cluster_key xs) = map cluster_view (sort_key cluster_key ys)"
  using sort_key_views [of cluster_view xs ys view_key]
  by (simp add: cluster_key_view [abs_def])

lemma sorted_parts:
  assumes "\<forall>c\<in>set cl. topic c \<noteq> None"
  shows "filter (\<lambda>c. topic c \<noteq> None) (sort_key cluster_key (cl @ map single_cluster remaining)) =
         sort_key cluster_key cl"
    and "filter (\<lambda>c. topic c = None) (sort_key cluster_key (cl @ map single_cluster remaining)) =
         sort_key cluster_key (map single_cluster remaining)"
proof -
  have 1: "filter (\<lambda>c. topic c \<noteq> None) cl = cl" using assms by (simp add: filter_id_conv)
  have 2: "filter (\<lambda>c. topic c = None) cl = []" using assms by (simp add: filter_empty_conv)
  have 3: "filter (\<lambda>c. topic c \<noteq> None) (map single_cluster remaining) = []"
    by (simp add: filter_empty_conv single_cluster_def)
  have 4: "filter (\<lambda>c. topic c = None) (map single_cluster remaining) = map single_cluster remaining"
    by (simp add: filter_id_conv single_cluster_def)
  show "filter (\<lambda>c. topic c \<noteq> None) (sort_key cluster_key (cl @ map single_cluster remaining)) =
         sort_key cluster_key cl"
    unfolding filter_sort filter_append 1 3 by simp
  show "filter (\<lambda>c. topic c = None) (sort_key cluster_key (cl @ map single_cluster remaining)) =
         sort_key cluster_key (map single_cluster remaining)"
    unfolding filter_sort filter_append 2 4 by simp
qed

lemma set_determined_sorted_iteration: "set_determined sorted_iteration"
  by (simp add: set_determined_def sorted_iteration_def)

lemma iterates_elements_sorted_iteration: "iterates_elements sorted_iteration"
  by (simp add: iterates_elements_def sorted_iteration_def)

lemma image_views_reordered:
  "mset r' = mset r \<Longrightarrow>
   mset (map cluster_view (sort_key cluster_key (map single_cluster r'))) =
   mset (map cluster_view (sort_key cluster_key (map single_cluster r)))"
  by simp

text \<open>
  C4 (as amended). Take two inputs that are reorderings of each other, in which no two
  entities are held by the same number of items, and an order of iteration over a set that
  depends on the elements of the set only. Then both runs raise, or both return; and when
  they return, the clusters with a topic are the same in both outputs, in the same order, up
  to the order of the items inside a cluster, and the clusters without topic are the same up
  to their order.
\<close>

theorem reordered_input_without_ties:
  assumes "mset items' = mset items" and "entity_sets items" and "no_ties items"
    and "set_determined iter"
  shows "(\<forall>cs. cluster_by_topic iter items mcs = Inr cs \<longrightarrow>
            (\<exists>cs'. cluster_by_topic iter items' mcs = Inr cs' \<and>
                   map cluster_view (filter (\<lambda>c. topic c \<noteq> None) cs') =
                   map cluster_view (filter (\<lambda>c. topic c \<noteq> None) cs) \<and>
                   mset (map cluster_view (filter (\<lambda>c. topic c = None) cs')) =
                   mset (map cluster_view (filter (\<lambda>c. topic c = None) cs)))) \<and>
         (cluster_by_topic iter items mcs = Inl TypeError \<longrightarrow>
            cluster_by_topic iter items' mcs = Inl TypeError)"
proof (cases "items = []")
  case True
  with assms(1) have "items' = []" by simp
  with True show ?thesis by (simp add: cluster_by_topic_def)
next
  case False
  with assms(1) have ne': "items' \<noteq> []" by auto
  have es': "entity_sets items'" by (rule entity_sets_reordered [OF assms(1,2)])
  let ?K = "map fst (sorted_entities items)"
  have K: "map fst (sorted_entities items') = ?K"
    by (rule sorted_entities_reordered [OF assms(1,2,3)])
  have so: "same_outcome (claim_items iter mcs ?K items []) (claim_items iter mcs ?K items' [])"
    by (rule claim_items_reordered [OF assms(4) assms(1)]) simp
  have c: "cluster_by_topic iter items mcs =
           (case claim_items iter mcs ?K items [] of
              Inl x \<Rightarrow> Inl x
            | Inr (remaining, cl) \<Rightarrow>
                Inr (sort_key cluster_key (cl @ map single_cluster remaining)))"
    using False by (simp add: cluster_by_topic_as_items [OF assms(2)])
  have c': "cluster_by_topic iter items' mcs =
           (case claim_items iter mcs ?K items' [] of
              Inl x \<Rightarrow> Inl x
            | Inr (remaining, cl) \<Rightarrow>
                Inr (sort_key cluster_key (cl @ map single_cluster remaining)))"
    using ne' by (simp add: cluster_by_topic_as_items [OF es'] K)
  show ?thesis
  proof (cases "claim_items iter mcs ?K items []")
    case (Inl x)
    with so have "claim_items iter mcs ?K items' [] = Inl x" by (simp add: same_outcome_def)
    with Inl show ?thesis by (simp add: c c')
  next
    case (Inr p)
    obtain r cl where p: "p = (r, cl)" by (cases p)
    with Inr so obtain r' cl' where
      i': "claim_items iter mcs ?K items' [] = Inr (r', cl')" and
      mr: "mset r' = mset r" and vc: "map cluster_view cl' = map cluster_view cl"
      by (auto simp: same_outcome_def)
    have t: "\<forall>c\<in>set cl. topic c \<noteq> None"
      by (rule claim_items_topics [of iter mcs ?K items "[]" r cl]) (simp_all add: Inr p)
    have t': "\<forall>c\<in>set cl'. topic c \<noteq> None"
      by (rule claim_items_topics [of iter mcs ?K items' "[]" r' cl']) (simp_all add: i')
    have cs: "cluster_by_topic iter items mcs =
              Inr (sort_key cluster_key (cl @ map single_cluster r))"
      by (simp add: c Inr p)
    have cs': "cluster_by_topic iter items' mcs =
              Inr (sort_key cluster_key (cl' @ map single_cluster r'))"
      by (simp add: c' i')
    have 1: "map cluster_view (filter (\<lambda>c. topic c \<noteq> None)
                (sort_key cluster_key (cl' @ map single_cluster r'))) =
             map cluster_view (filter (\<lambda>c. topic c \<noteq> None)
                (sort_key cluster_key (cl @ map single_cluster r)))"
      unfolding sorted_parts(1) [OF t] sorted_parts(1) [OF t']
      by (rule sort_cluster_views [OF vc])
    have 2: "mset (map cluster_view (filter (\<lambda>c. topic c = None)
                (sort_key cluster_key (cl' @ map single_cluster r')))) =
             mset (map cluster_view (filter (\<lambda>c. topic c = None)
                (sort_key cluster_key (cl @ map single_cluster r))))"
      unfolding sorted_parts(2) [OF t] sorted_parts(2) [OF t']
      by (rule image_views_reordered [OF mr])
    from 1 2 show ?thesis by (simp add: cs cs')
  qed
qed

lemmas cluster_eval_sorted = cluster_eval sorted_iteration_def sorted_list_of_set_sort_remdups

theorem reordered_input_without_ties_witness:
  "cluster_by_topic sorted_iteration
     [item_with ''A'' [''OpenAI''], item_with ''B'' [''OpenAI'', ''Sora''],
      item_with ''C'' [''Sora'', ''OpenAI''], item_with ''D'' [''Anthropic'']] 2 =
   Inr [\<lparr>topic = Some ''OpenAI'', shared_entities = [''OpenAI''],
          cluster_items = [item_with ''A'' [''OpenAI''], item_with ''B'' [''OpenAI'', ''Sora''],
                           item_with ''C'' [''Sora'', ''OpenAI'']]\<rparr>,
        \<lparr>topic = None, shared_entities = [''Anthropic''],
          cluster_items = [item_with ''D'' [''Anthropic'']]\<rparr>] \<and>
   (\<exists>cs'. cluster_by_topic sorted_iteration
            [item_with ''D'' [''Anthropic''], item_with ''C'' [''Sora'', ''OpenAI''],
             item_with ''B'' [''OpenAI'', ''Sora''], item_with ''A'' [''OpenAI'']] 2 = Inr cs' \<and>
          map cluster_view (filter (\<lambda>c. topic c \<noteq> None) cs') =
          [(Some ''OpenAI'', {''OpenAI''},
            mset [item_with ''A'' [''OpenAI''], item_with ''B'' [''OpenAI'', ''Sora''],
                  item_with ''C'' [''Sora'', ''OpenAI'']])])"
proof -
  let ?items = "[item_with ''A'' [''OpenAI''], item_with ''B'' [''OpenAI'', ''Sora''],
      item_with ''C'' [''Sora'', ''OpenAI''], item_with ''D'' [''Anthropic'']]"
  let ?items' = "[item_with ''D'' [''Anthropic''], item_with ''C'' [''Sora'', ''OpenAI''],
             item_with ''B'' [''OpenAI'', ''Sora''], item_with ''A'' [''OpenAI'']]"
  let ?cs = "[\<lparr>topic = Some ''OpenAI'', shared_entities = [''OpenAI''],
          cluster_items = [item_with ''A'' [''OpenAI''], item_with ''B'' [''OpenAI'', ''Sora''],
                           item_with ''C'' [''Sora'', ''OpenAI'']]\<rparr>,
        \<lparr>topic = None, shared_entities = [''Anthropic''],
          cluster_items = [item_with ''D'' [''Anthropic'']]\<rparr>]"
  have m: "mset ?items' = mset ?items" by (simp add: add_mset_commute)
  have es: "entity_sets ?items" by (simp add: entity_sets_def item_with_def)
  have nt: "no_ties ?items"
    by (simp add: no_ties_def members_def item_with_def inj_on_def upt_rec [of 0]
        upt_rec [of "Suc 0"] upt_rec [of 1] upt_rec [of 2] upt_rec [of 3])
  have h: "cluster_by_topic sorted_iteration ?items 2 = Inr ?cs"
    by (simp add: cluster_eval_sorted)
  from reordered_input_without_ties [OF m es nt set_determined_sorted_iteration, of 2] h
  have "\<exists>cs'. cluster_by_topic sorted_iteration ?items' 2 = Inr cs' \<and>
          map cluster_view (filter (\<lambda>c. topic c \<noteq> None) cs') =
          map cluster_view (filter (\<lambda>c. topic c \<noteq> None) ?cs)" by blast
  with h show ?thesis by (simp add: cluster_view_def)
qed

text \<open>
  The claim C4 as stated fails: two entities held by two items each are processed in the
  order in which the input mentions them first, and the first one claims the item they share.
\<close>

theorem reordered_input_changes_the_groups:
  "mset [item_with ''C'' [''Sora''], item_with ''B'' [''OpenAI''],
         item_with ''A'' [''OpenAI'', ''Sora'']] =
   mset [item_with ''B'' [''OpenAI''], item_with ''C'' [''Sora''],
         item_with ''A'' [''OpenAI'', ''Sora'']] \<and>
   cluster_by_topic list_order
     [item_with ''B'' [''OpenAI''], item_with ''C'' [''Sora''],
      item_with ''A'' [''OpenAI'', ''Sora'']] 2 =
   Inr [\<lparr>topic = Some ''OpenAI'', shared_entities = [''OpenAI''],
          cluster_items = [item_with ''B'' [''OpenAI''], item_with ''A'' [''OpenAI'', ''Sora'']]\<rparr>,
        \<lparr>topic = None, shared_entities = [''Sora''],
          cluster_items = [item_with ''C'' [''Sora'']]\<rparr>] \<and>
   cluster_by_topic list_order
     [item_with ''C'' [''Sora''], item_with ''B'' [''OpenAI''],
      item_with ''A'' [''OpenAI'', ''Sora'']] 2 =
   Inr [\<lparr>topic = Some ''Sora'', shared_entities = [''Sora''],
          cluster_items = [item_with ''C'' [''Sora''], item_with ''A'' [''OpenAI'', ''Sora'']]\<rparr>,
        \<lparr>topic = None, shared_entities = [''OpenAI''],
          cluster_items = [item_with ''B'' [''OpenAI'']]\<rparr>]"
  by (simp add: cluster_eval add_mset_commute)


end
